theory Spec2Isabelle
  imports Main
begin

section \<open>The Elasticsearch-backed agent configuration fetcher\<close>

text \<open>
  A shallow embedding of \<^verbatim>\<open>agentcfg/elasticsearch.go\<close>. The fetcher's fields are a
  record that every operation takes and returns. Everything outside the fetcher (the
  Elasticsearch client, the logger, the context and the ticker of \<^verbatim>\<open>Run\<close>, the wall
  clock) is the \<open>world\<close>: a script of the outcomes still to come, together with the trace
  of the requests made and the log lines written so far. An operation that needs an
  outcome the script does not hold has not returned: its value is \<open>None\<close>.
\<close>

subsection \<open>Data\<close>

text \<open>
  Go's \<^verbatim>\<open>error\<close> values. \<open>ErrorString\<close> is \<^verbatim>\<open>errors.New\<close>; \<open>StatusError n\<close> is
  \<^verbatim>\<open>fmt.Errorf("refresh cache elasticsearch returned status %d", n)\<close>; \<open>ExternalError\<close> is
  an error produced outside this file (the transport, the JSON decoder, the context).
\<close>

datatype error = ErrorString string | StatusError int | ExternalError string

definition ElasticsearchIndexName :: string where
  "ElasticsearchIndexName = ''.apm-agent-configuration''"

definition ErrInfrastructureNotReady :: string where
  "ErrInfrastructureNotReady = ''agentcfg infrastructure is not ready''"

definition ErrNoValidElasticsearchConfig :: string where
  "ErrNoValidElasticsearchConfig = ''no valid elasticsearch config to fetch agent config''"

text \<open>The record type of the cache, with the fields \<^verbatim>\<open>refreshCache\<close> fills in.\<close>

record AgentConfig =
  ServiceName :: string
  ServiceEnvironment :: string
  AgentName :: string
  Etag :: string
  Config :: "string \<rightharpoonup> string"

text \<open>
  \<^verbatim>\<open>cacheResult\<close>: the scroll id and the hits of one page. The nested anonymous structs
  \<^verbatim>\<open>Hits.Hits[i].Source\<close> are flattened into one record per hit.
\<close>

record hit =
  Settings :: "string \<rightharpoonup> string"
  Service_Name :: string
  Service_Environment :: string
  Source_AgentName :: string
  ETag :: string

record cacheResult =
  ScrollID :: string
  Hits :: "hit list"

text \<open>
  An \<^verbatim>\<open>esapi.Response\<close>, as far as this file looks at it: the status code, what
  \<^verbatim>\<open>io.ReadAll\<close> gives on the body and what decoding the body as JSON into a
  \<^verbatim>\<open>cacheResult\<close> gives.
\<close>

record response =
  StatusCode :: int
  ReadAll :: "error + string"
  Decode :: "error + cacheResult"

text \<open>\<^verbatim>\<open>esapi.Response.IsError\<close>: a status code above 299.\<close>

definition IsError :: "response \<Rightarrow> bool" where
  "IsError resp \<longleftrightarrow> StatusCode resp > 299"

text \<open>
  The three requests of this file, with the fields it sets. A \<^verbatim>\<open>time.Duration\<close> is an
  integer.
\<close>

datatype request =
  SearchRequest "string list" int int
| ScrollRequest string int
| ClearScrollRequest "string list"

type_synonym exchange = "request \<times> (error + response)"

datatype level = DebugLevel | WarnLevel | ErrorLevel

datatype message =
  RefreshCacheError error
| StoppingRefresh
| RefreshCacheSuccess
| FailedToClearScroll error
| ClearScrollReturnedError int
| ReturnedStatus int string

text \<open>
  What a \<^verbatim>\<open>select\<close> of \<^verbatim>\<open>Run\<close> receives: \<open>CtxDone e\<close> when \<^verbatim>\<open>ctx.Done()\<close> is
  taken, \<open>e\<close> being what \<^verbatim>\<open>ctx.Err()\<close> then returns; \<open>Proceed\<close> when the other case is
  taken (\<^verbatim>\<open>default\<close> in the first select, the ticker's channel in the loop).
\<close>

datatype select_case = CtxDone error | Proceed

record world =
  pending :: "(error + response) list"
  selects :: "select_case list"
  trace :: "exchange list"
  logs :: "(level \<times> message) list"
  now :: nat

text \<open>
  The fetcher. \<^verbatim>\<open>client\<close> and \<^verbatim>\<open>logger\<close> are the world; the lock \<^verbatim>\<open>mu\<close> has no
  counterpart in a sequential model. The field \<^verbatim>\<open>last\<close> is \<open>last_time\<close> here.
\<close>

record ElasticsearchFetcher =
  last_time :: nat
  cache :: "AgentConfig list"
  cacheDuration :: int
  searchSize :: int
  invalidESCfg :: bool
  cacheInitialized :: bool

definition NewElasticsearchFetcher :: "int \<Rightarrow> ElasticsearchFetcher" where
  "NewElasticsearchFetcher d =
     \<lparr>last_time = 0, cache = [], cacheDuration = d, searchSize = 100,
      invalidESCfg = False, cacheInitialized = False\<rparr>"

subsection \<open>The world's operations\<close>

text \<open>
  \<^verbatim>\<open>Do\<close> sends a request: the next outcome of the script is its result (\<open>Inl\<close> the
  error of the transport, a deadline that has passed among them), and the trace records
  the exchange. \<open>log\<close> is a line written by the logger. \<open>select\<close> is a \<^verbatim>\<open>select\<close>
  statement of \<^verbatim>\<open>Run\<close> taking its next outcome.
\<close>

definition Do :: "request \<Rightarrow> world \<Rightarrow> ((error + response) \<times> world) option" where
  "Do req w =
     (case pending w of
        [] \<Rightarrow> None
      | out # rest \<Rightarrow> Some (out, w\<lparr>pending := rest, trace := trace w @ [(req, out)]\<rparr>))"

definition log :: "level \<Rightarrow> message \<Rightarrow> world \<Rightarrow> world" where
  "log l m w = w\<lparr>logs := logs w @ [(l, m)]\<rparr>"

definition select :: "world \<Rightarrow> (select_case \<times> world) option" where
  "select w =
     (case selects w of
        [] \<Rightarrow> None
      | s # rest \<Rightarrow> Some (s, w\<lparr>selects := rest\<rparr>))"

subsection \<open>Fetch\<close>

text \<open>
  \<^verbatim>\<open>matchAgentConfig\<close> is defined in another file of the package: it is the parameter
  \<open>matchAgentConfig\<close>. The zero \<^verbatim>\<open>Result{}\<close> that goes with an error is left out of the
  sum.
\<close>

definition Fetch ::
  "('q \<Rightarrow> AgentConfig list \<Rightarrow> 'r) \<Rightarrow> ElasticsearchFetcher \<Rightarrow> 'q \<Rightarrow> error + 'r" where
  "Fetch matchAgentConfig f query =
     (if cacheInitialized f then Inr (matchAgentConfig query (cache f))
      else if invalidESCfg f then Inl (ErrorString ErrNoValidElasticsearchConfig)
      else Inl (ErrorString ErrInfrastructureNotReady))"

subsection \<open>One page\<close>

definition singlePageRefresh ::
  "ElasticsearchFetcher \<Rightarrow> string \<Rightarrow> world \<Rightarrow>
     ((error + cacheResult) \<times> ElasticsearchFetcher \<times> world) option" where
  "singlePageRefresh f scrollID w =
     (case Do (if scrollID = []
               then SearchRequest [ElasticsearchIndexName] (searchSize f) (cacheDuration f)
               else ScrollRequest scrollID (cacheDuration f)) w of
        None \<Rightarrow> None
      | Some (Inl err, w') \<Rightarrow> Some (Inl err, f, w')
      | Some (Inr resp, w') \<Rightarrow>
          if StatusCode resp \<ge> 400 then
            let f' = (if StatusCode resp = 401 \<or> StatusCode resp = 403
                      then f\<lparr>invalidESCfg := True\<rparr> else f);
                w'' = (case ReadAll resp of
                         Inr bodyBytes \<Rightarrow>
                           log DebugLevel (ReturnedStatus (StatusCode resp) bodyBytes) w'
                       | Inl _ \<Rightarrow> w')
            in Some (Inl (StatusError (StatusCode resp)), f', w'')
          else
            (case Decode resp of
               Inl err \<Rightarrow> Some (Inl err, f, w')
             | Inr result \<Rightarrow> Some (Inr result, f, w')))"

definition clearScroll :: "ElasticsearchFetcher \<Rightarrow> string \<Rightarrow> world \<Rightarrow> world option" where
  "clearScroll f scrollID w =
     (case Do (ClearScrollRequest [scrollID]) w of
        None \<Rightarrow> None
      | Some (Inl err, w') \<Rightarrow> Some (log WarnLevel (FailedToClearScroll err) w')
      | Some (Inr resp, w') \<Rightarrow>
          Some (if IsError resp
                then log WarnLevel (ClearScrollReturnedError (StatusCode resp)) w'
                else w'))"

subsection \<open>One refresh cycle\<close>

definition toAgentConfig :: "hit \<Rightarrow> AgentConfig" where
  "toAgentConfig h =
     \<lparr>ServiceName = Service_Name h,
      ServiceEnvironment = Service_Environment h,
      AgentName = Source_AgentName h,
      Etag = ETag h,
      Config = Settings h\<rparr>"

lemma singlePageRefresh_shorter:
  "singlePageRefresh f scrollID w = Some (r, f', w') \<Longrightarrow>
   length (pending w') < length (pending w)"
  by (cases "pending w")
    (auto simp: singlePageRefresh_def Do_def Let_def log_def split: sum.splits if_splits)

text \<open>
  The \<^verbatim>\<open>for\<close> loop of \<^verbatim>\<open>refreshCache\<close>. It ends with \<open>Inl err\<close> where the source
  returns \<^verbatim>\<open>err\<close> from inside the loop, and with \<open>Inr (scrollID, buffer)\<close> at the
  \<^verbatim>\<open>break\<close>.
\<close>

function refreshCache_loop ::
  "ElasticsearchFetcher \<Rightarrow> string \<Rightarrow> AgentConfig list \<Rightarrow> world \<Rightarrow>
     ((error + string \<times> AgentConfig list) \<times> ElasticsearchFetcher \<times> world) option" where
  "refreshCache_loop f scrollID buffer w =
     (case singlePageRefresh f scrollID w of
        None \<Rightarrow> None
      | Some (Inl err, f', w') \<Rightarrow>
          (case clearScroll f' scrollID w' of
             None \<Rightarrow> None
           | Some w'' \<Rightarrow> Some (Inl err, f', w''))
      | Some (Inr result, f', w') \<Rightarrow>
          if length (Hits result) = 0
          then Some (Inr (ScrollID result, buffer @ map toAgentConfig (Hits result)), f', w')
          else refreshCache_loop f' (ScrollID result)
                 (buffer @ map toAgentConfig (Hits result)) w')"
  by pat_completeness auto
termination
  by (relation "measure (\<lambda>(f, scrollID, buffer, w). length (pending w))")
    (auto dest: singlePageRefresh_shorter)

declare refreshCache_loop.simps [simp del]

definition refreshCache ::
  "ElasticsearchFetcher \<Rightarrow> world \<Rightarrow> (error option \<times> ElasticsearchFetcher \<times> world) option" where
  "refreshCache f w =
     (case refreshCache_loop f [] [] w of
        None \<Rightarrow> None
      | Some (Inl err, f', w') \<Rightarrow> Some (Some err, f', w')
      | Some (Inr (scrollID, buffer), f', w') \<Rightarrow>
          (case clearScroll f' scrollID w' of
             None \<Rightarrow> None
           | Some w'' \<Rightarrow>
               Some (None,
                     f'\<lparr>cache := buffer, cacheInitialized := True, last_time := now w''\<rparr>,
                     w'')))"

subsection \<open>The closure of Run\<close>

text \<open>The closure \<^verbatim>\<open>refresh\<close> of \<^verbatim>\<open>Run\<close>: its result says whether Run should stop.\<close>

definition refresh ::
  "ElasticsearchFetcher \<Rightarrow> world \<Rightarrow> (bool \<times> ElasticsearchFetcher \<times> world) option" where
  "refresh f w =
     (case refreshCache f w of
        None \<Rightarrow> None
      | Some (Some err, f', w') \<Rightarrow>
          let w'' = log ErrorLevel (RefreshCacheError err) w' in
          if invalidESCfg f' then Some (True, f', log WarnLevel StoppingRefresh w'')
          else Some (False, f', w'')
      | Some (None, f', w') \<Rightarrow> Some (False, f', log DebugLevel RefreshCacheSuccess w'))"

subsection \<open>Reading a cycle off the script\<close>

text \<open>
  What \<^verbatim>\<open>singlePageRefresh\<close> and \<^verbatim>\<open>clearScroll\<close> do with the next outcome of the
  script, as functions of that outcome: the request sent, the result handed to the loop,
  the 401/403 test, and the log line written.
\<close>

definition page_request :: "ElasticsearchFetcher \<Rightarrow> string \<Rightarrow> request" where
  "page_request f scrollID =
     (if scrollID = []
      then SearchRequest [ElasticsearchIndexName] (searchSize f) (cacheDuration f)
      else ScrollRequest scrollID (cacheDuration f))"

definition page_outcome :: "error + response \<Rightarrow> error + cacheResult" where
  "page_outcome out =
     (case out of
        Inl err \<Rightarrow> Inl err
      | Inr resp \<Rightarrow>
          if StatusCode resp \<ge> 400 then Inl (StatusError (StatusCode resp))
          else Decode resp)"

definition permanent :: "error + response \<Rightarrow> bool" where
  "permanent out =
     (case out of
        Inl err \<Rightarrow> False
      | Inr resp \<Rightarrow> StatusCode resp = 401 \<or> StatusCode resp = 403)"

definition page_log :: "error + response \<Rightarrow> world \<Rightarrow> world" where
  "page_log out w =
     (case out of
        Inl err \<Rightarrow> w
      | Inr resp \<Rightarrow>
          if StatusCode resp \<ge> 400
          then (case ReadAll resp of
                  Inr bodyBytes \<Rightarrow> log DebugLevel (ReturnedStatus (StatusCode resp) bodyBytes) w
                | Inl _ \<Rightarrow> w)
          else w)"

definition clear_log :: "error + response \<Rightarrow> world \<Rightarrow> world" where
  "clear_log out w =
     (case out of
        Inl err \<Rightarrow> log WarnLevel (FailedToClearScroll err) w
      | Inr resp \<Rightarrow>
          if IsError resp then log WarnLevel (ClearScrollReturnedError (StatusCode resp)) w
          else w)"

definition classify :: "ElasticsearchFetcher \<Rightarrow> error + response \<Rightarrow> ElasticsearchFetcher" where
  "classify f out = (if permanent out then f\<lparr>invalidESCfg := True\<rparr> else f)"

lemma singlePageRefresh_Nil: "pending w = [] \<Longrightarrow> singlePageRefresh f scrollID w = None"
  by (simp add: singlePageRefresh_def Do_def)

lemma singlePageRefresh_Cons:
  "pending w = out # rest \<Longrightarrow>
   singlePageRefresh f scrollID w =
     Some (page_outcome out, classify f out,
           page_log out (w\<lparr>pending := rest, trace := trace w @ [(page_request f scrollID, out)]\<rparr>))"
  by (cases out)
    (auto simp: singlePageRefresh_def Do_def page_outcome_def classify_def permanent_def
      page_log_def page_request_def Let_def split: sum.splits)

lemma clearScroll_Nil: "pending w = [] \<Longrightarrow> clearScroll f scrollID w = None"
  by (simp add: clearScroll_def Do_def)

lemma clearScroll_Cons:
  "pending w = out # rest \<Longrightarrow>
   clearScroll f scrollID w =
     Some (clear_log out
             (w\<lparr>pending := rest, trace := trace w @ [(ClearScrollRequest [scrollID], out)]\<rparr>))"
  by (cases out) (auto simp: clearScroll_def Do_def clear_log_def)


lemma page_outcome_Inr [simp]:
  "page_outcome out = Inr p \<Longrightarrow> \<not> permanent out"
  "page_outcome out = Inr p \<Longrightarrow> page_log out w = w"
  "page_outcome out = Inr p \<Longrightarrow> classify f out = f"
  by (auto simp: page_outcome_def permanent_def page_log_def classify_def
      split: sum.splits if_splits)

lemma frame_simps [simp]:
  "selects (page_log out w) = selects w"
  "now (page_log out w) = now w"
  "pending (page_log out w) = pending w"
  "trace (page_log out w) = trace w"
  "selects (clear_log out w) = selects w"
  "now (clear_log out w) = now w"
  "pending (clear_log out w) = pending w"
  "trace (clear_log out w) = trace w"
  "selects (log l m w) = selects w"
  "now (log l m w) = now w"
  "pending (log l m w) = pending w"
  "trace (log l m w) = trace w"
  by (auto simp: page_log_def clear_log_def log_def split: sum.splits)

lemma classify_fields [simp]:
  "cache (classify f out) = cache f"
  "cacheInitialized (classify f out) = cacheInitialized f"
  "last_time (classify f out) = last_time f"
  "cacheDuration (classify f out) = cacheDuration f"
  "searchSize (classify f out) = searchSize f"
  "invalidESCfg (classify f out) = (invalidESCfg f \<or> permanent out)"
  by (auto simp: classify_def)

lemma page_request_classify [simp]: "page_request (classify f out) scrollID = page_request f scrollID"
  by (simp add: page_request_def)

text \<open>
  A page with hits lets the loop go on: \<open>nonempty_page\<close> says so of an outcome,
  \<open>next_scrollID\<close> is the scroll id the next request then carries and \<open>page_records\<close>
  what the loop appends to its buffer. \<open>page_trace\<close> pairs a run of outcomes with the
  page requests that received them, the first sent with the scroll id given;
  \<open>last_scrollID\<close> is the scroll id the loop holds after them.
\<close>

definition nonempty_page :: "error + response \<Rightarrow> bool" where
  "nonempty_page out = (case page_outcome out of Inl err \<Rightarrow> False | Inr p \<Rightarrow> Hits p \<noteq> [])"

definition next_scrollID :: "error + response \<Rightarrow> string" where
  "next_scrollID out = (case page_outcome out of Inl err \<Rightarrow> [] | Inr p \<Rightarrow> ScrollID p)"

definition page_records :: "error + response \<Rightarrow> AgentConfig list" where
  "page_records out =
     (case page_outcome out of Inl err \<Rightarrow> [] | Inr p \<Rightarrow> map toAgentConfig (Hits p))"

fun page_trace :: "ElasticsearchFetcher \<Rightarrow> string \<Rightarrow> (error + response) list \<Rightarrow> exchange list" where
  "page_trace f scrollID [] = []"
| "page_trace f scrollID (out # outs) =
     (page_request f scrollID, out) # page_trace f (next_scrollID out) outs"

fun last_scrollID :: "string \<Rightarrow> (error + response) list \<Rightarrow> string" where
  "last_scrollID scrollID [] = scrollID"
| "last_scrollID scrollID (out # outs) = last_scrollID (next_scrollID out) outs"

lemma refreshCache_loop_step:
  assumes "pending w = out # rest" and "nonempty_page out"
  shows "refreshCache_loop f scrollID buffer w =
         refreshCache_loop f (next_scrollID out) (buffer @ page_records out)
           (w\<lparr>pending := rest, trace := trace w @ [(page_request f scrollID, out)]\<rparr>)"
proof -
  from \<open>nonempty_page out\<close> obtain p where p: "page_outcome out = Inr p" "Hits p \<noteq> []"
    by (auto simp: nonempty_page_def split: sum.splits)
  show ?thesis
    by (subst refreshCache_loop.simps)
      (simp add: singlePageRefresh_Cons [OF assms(1)] p next_scrollID_def page_records_def)
qed

lemma refreshCache_loop_pages:
  assumes "pending w = goods @ rest" and "\<forall>g\<in>set goods. nonempty_page g"
  shows "refreshCache_loop f scrollID buffer w =
         refreshCache_loop f (last_scrollID scrollID goods)
           (buffer @ concat (map page_records goods))
           (w\<lparr>pending := rest, trace := trace w @ page_trace f scrollID goods\<rparr>)"
  using assms
proof (induction goods arbitrary: w scrollID buffer)
  case Nil
  then have "w\<lparr>pending := rest, trace := trace w @ page_trace f scrollID []\<rparr> = w"
    by (cases w) simp
  then show ?case by simp
next
  case (Cons g goods)
  let ?w1 = "w\<lparr>pending := goods @ rest, trace := trace w @ [(page_request f scrollID, g)]\<rparr>"
  have "refreshCache_loop f scrollID buffer w =
        refreshCache_loop f (next_scrollID g) (buffer @ page_records g) ?w1"
    using Cons.prems by (intro refreshCache_loop_step) auto
  also have "\<dots> = refreshCache_loop f (last_scrollID (next_scrollID g) goods)
                    ((buffer @ page_records g) @ concat (map page_records goods))
                    (?w1\<lparr>pending := rest, trace := trace ?w1 @ page_trace f (next_scrollID g) goods\<rparr>)"
    using Cons.prems by (intro Cons.IH) auto
  finally show ?case by simp
qed

lemma refreshCache_loop_break:
  assumes "pending w = t # rest" and "page_outcome t = Inr p" and "Hits p = []"
  shows "refreshCache_loop f scrollID buffer w =
         Some (Inr (ScrollID p, buffer), f,
               w\<lparr>pending := rest, trace := trace w @ [(page_request f scrollID, t)]\<rparr>)"
  by (subst refreshCache_loop.simps)
    (simp add: singlePageRefresh_Cons [OF assms(1)] assms(2,3))

lemma refreshCache_loop_fail:
  assumes "pending w = t # c # rest" and "page_outcome t = Inl err"
  shows "refreshCache_loop f scrollID buffer w =
         Some (Inl err, classify f t,
               clear_log c (page_log t
                 (w\<lparr>pending := rest,
                    trace := trace w @ [(page_request f scrollID, t),
                                        (ClearScrollRequest [scrollID], c)]\<rparr>)))"
proof -
  let ?w1 = "page_log t (w\<lparr>pending := c # rest, trace := trace w @ [(page_request f scrollID, t)]\<rparr>)"
  have "pending ?w1 = c # rest" by simp
  from clearScroll_Cons [OF this]
  have "clearScroll (classify f t) scrollID ?w1 =
        Some (clear_log c (?w1\<lparr>pending := rest,
                trace := trace ?w1 @ [(ClearScrollRequest [scrollID], c)]\<rparr>))" .
  moreover have "?w1\<lparr>pending := rest, trace := trace ?w1 @ [(ClearScrollRequest [scrollID], c)]\<rparr> =
        page_log t (w\<lparr>pending := rest,
                    trace := trace w @ [(page_request f scrollID, t),
                                        (ClearScrollRequest [scrollID], c)]\<rparr>)"
    by (auto simp: page_log_def log_def split: sum.splits)
  ultimately show ?thesis
    by (subst refreshCache_loop.simps)
      (simp add: singlePageRefresh_Cons [OF assms(1)] assms(2))
qed

lemma refreshCache_loop_fail_hang:
  assumes "pending w = [t]" and "page_outcome t = Inl err"
  shows "refreshCache_loop f scrollID buffer w = None"
  by (subst refreshCache_loop.simps)
    (simp add: singlePageRefresh_Cons [OF assms(1)] assms(2) clearScroll_Nil)

lemma refreshCache_loop_Nil:
  assumes "pending w = []"
  shows "refreshCache_loop f scrollID buffer w = None"
  by (subst refreshCache_loop.simps) (simp add: singlePageRefresh_Nil [OF assms])


lemma page_trace_append:
  "page_trace f scrollID (xs @ ys) =
   page_trace f scrollID xs @ page_trace f (last_scrollID scrollID xs) ys"
  by (induction xs arbitrary: scrollID) auto

lemma nonempty_page_not_permanent [simp]: "nonempty_page out \<Longrightarrow> \<not> permanent out"
  by (auto simp: nonempty_page_def split: sum.splits)

lemma page_outcome_nonempty [simp]:
  "page_outcome t = Inl err \<Longrightarrow> \<not> nonempty_page t"
  "page_outcome t = Inr p \<Longrightarrow> nonempty_page t \<longleftrightarrow> Hits p \<noteq> []"
  by (auto simp: nonempty_page_def)

lemma page_outcome_next [simp]: "page_outcome t = Inr p \<Longrightarrow> next_scrollID t = ScrollID p"
  by (simp add: next_scrollID_def)

lemma page_outcome_records [simp]:
  "page_outcome t = Inr p \<Longrightarrow> page_records t = map toAgentConfig (Hits p)"
  "page_outcome t = Inl err \<Longrightarrow> page_records t = []"
  by (auto simp: page_records_def)

lemma last_scrollID_snoc [simp]:
  "last_scrollID scrollID (xs @ [t]) = next_scrollID t"
  by (induction xs arbitrary: scrollID) auto

text \<open>The three ways a cycle can go, read off the script.\<close>

lemma refreshCache_success:
  assumes "pending w = goods @ t # c # rest" and "\<forall>g\<in>set goods. nonempty_page g"
    and "page_outcome t = Inr p" and "Hits p = []"
  shows "refreshCache f w =
         Some (None,
               f\<lparr>cache := concat (map page_records goods), cacheInitialized := True,
                 last_time := now w\<rparr>,
               clear_log c
                 (w\<lparr>pending := rest,
                    trace := trace w @ page_trace f [] (goods @ [t]) @
                             [(ClearScrollRequest [ScrollID p], c)]\<rparr>))"
proof -
  let ?w1 = "w\<lparr>pending := t # c # rest, trace := trace w @ page_trace f [] goods\<rparr>"
  let ?w2 = "?w1\<lparr>pending := c # rest,
                 trace := trace ?w1 @ [(page_request f (last_scrollID [] goods), t)]\<rparr>"
  have "refreshCache_loop f [] [] w =
        refreshCache_loop f (last_scrollID [] goods) ([] @ concat (map page_records goods)) ?w1"
    using assms(1,2) by (rule refreshCache_loop_pages)
  also have "\<dots> = Some (Inr (ScrollID p, [] @ concat (map page_records goods)), f, ?w2)"
    using assms(3,4) by (intro refreshCache_loop_break) auto
  finally have loop: "refreshCache_loop f [] [] w =
      Some (Inr (ScrollID p, concat (map page_records goods)), f, ?w2)"
    by simp
  have "pending ?w2 = c # rest" by simp
  from clearScroll_Cons [OF this]
  have "clearScroll f (ScrollID p) ?w2 =
        Some (clear_log c (?w2\<lparr>pending := rest,
                trace := trace ?w2 @ [(ClearScrollRequest [ScrollID p], c)]\<rparr>))" .
  then show ?thesis
    by (simp add: refreshCache_def loop page_trace_append)
qed

lemma refreshCache_failure:
  assumes "pending w = goods @ t # c # rest" and "\<forall>g\<in>set goods. nonempty_page g"
    and "page_outcome t = Inl err"
  shows "refreshCache f w =
         Some (Some err, classify f t,
               clear_log c (page_log t
                 (w\<lparr>pending := rest,
                    trace := trace w @ page_trace f [] (goods @ [t]) @
                             [(ClearScrollRequest [last_scrollID [] goods], c)]\<rparr>)))"
proof -
  let ?w1 = "w\<lparr>pending := t # c # rest, trace := trace w @ page_trace f [] goods\<rparr>"
  have "refreshCache_loop f [] [] w =
        refreshCache_loop f (last_scrollID [] goods) ([] @ concat (map page_records goods)) ?w1"
    using assms(1,2) by (rule refreshCache_loop_pages)
  also have "\<dots> = Some (Inl err, classify f t,
               clear_log c (page_log t
                 (?w1\<lparr>pending := rest,
                    trace := trace ?w1 @ [(page_request f (last_scrollID [] goods), t),
                                        (ClearScrollRequest [last_scrollID [] goods], c)]\<rparr>)))"
    using assms(3) by (intro refreshCache_loop_fail) auto
  finally show ?thesis
    by (simp add: refreshCache_def page_trace_append)
qed

lemma refreshCache_loop_SomeD:
  assumes "refreshCache_loop f scrollID buffer w = Some (r, f', w')"
  shows "\<exists>t rest. dropWhile nonempty_page (pending w) = t # rest \<and>
           (case page_outcome t of Inl err \<Rightarrow> rest \<noteq> [] | Inr p \<Rightarrow> True)"
proof -
  let ?goods = "takeWhile nonempty_page (pending w)"
  let ?tail = "dropWhile nonempty_page (pending w)"
  let ?w1 = "w\<lparr>pending := ?tail, trace := trace w @ page_trace f scrollID ?goods\<rparr>"
  have split: "pending w = ?goods @ ?tail" by simp
  have goods: "\<forall>g\<in>set ?goods. nonempty_page g" by (auto dest: set_takeWhileD)
  have eq: "refreshCache_loop f scrollID buffer w =
        refreshCache_loop f (last_scrollID scrollID ?goods)
          (buffer @ concat (map page_records ?goods)) ?w1"
    using split goods by (rule refreshCache_loop_pages)
  show ?thesis
  proof (cases ?tail)
    case Nil
    then have "pending ?w1 = []" by simp
    from refreshCache_loop_Nil [OF this] eq assms show ?thesis by simp
  next
    case (Cons t rest)
    show ?thesis
    proof (cases "page_outcome t")
      case (Inl err)
      show ?thesis
      proof (cases rest)
        case Nil
        with Cons have "pending ?w1 = [t]" by simp
        from refreshCache_loop_fail_hang [OF this Inl] eq assms show ?thesis by simp
      next
        case (Cons c rest')
        with \<open>?tail = t # rest\<close> Inl show ?thesis by simp
      qed
    next
      case (Inr p)
      with Cons show ?thesis by simp
    qed
  qed
qed


lemma refreshCache_success_hang:
  assumes "pending w = goods @ [t]" and "\<forall>g\<in>set goods. nonempty_page g"
    and "page_outcome t = Inr p" and "Hits p = []"
  shows "refreshCache f w = None"
proof -
  let ?w1 = "w\<lparr>pending := [t], trace := trace w @ page_trace f [] goods\<rparr>"
  let ?w2 = "?w1\<lparr>pending := [],
                 trace := trace ?w1 @ [(page_request f (last_scrollID [] goods), t)]\<rparr>"
  have "refreshCache_loop f [] [] w =
        refreshCache_loop f (last_scrollID [] goods) ([] @ concat (map page_records goods)) ?w1"
    using assms(1,2) by (rule refreshCache_loop_pages)
  also have "\<dots> = Some (Inr (ScrollID p, [] @ concat (map page_records goods)), f, ?w2)"
    using assms(3,4) by (intro refreshCache_loop_break) auto
  finally have loop: "refreshCache_loop f [] [] w =
      Some (Inr (ScrollID p, concat (map page_records goods)), f, ?w2)"
    by simp
  have "pending ?w2 = []" by simp
  from clearScroll_Nil [OF this] show ?thesis
    by (simp add: refreshCache_def loop)
qed

lemma refreshCache_cases [consumes 1, case_names success failure]:
  assumes "refreshCache f w = Some (r, f', w')"
  obtains
    (success) goods t c rest p where
      "pending w = goods @ t # c # rest" and "\<forall>g\<in>set goods. nonempty_page g"
      and "page_outcome t = Inr p" and "Hits p = []" and "r = None"
      and "f' = f\<lparr>cache := concat (map page_records goods), cacheInitialized := True,
                  last_time := now w\<rparr>"
      and "w' = clear_log c
                 (w\<lparr>pending := rest,
                    trace := trace w @ page_trace f [] (goods @ [t]) @
                             [(ClearScrollRequest [ScrollID p], c)]\<rparr>)"
  | (failure) goods t c rest err where
      "pending w = goods @ t # c # rest" and "\<forall>g\<in>set goods. nonempty_page g"
      and "page_outcome t = Inl err" and "r = Some err" and "f' = classify f t"
      and "w' = clear_log c (page_log t
                 (w\<lparr>pending := rest,
                    trace := trace w @ page_trace f [] (goods @ [t]) @
                             [(ClearScrollRequest [last_scrollID [] goods], c)]\<rparr>))"
proof -
  let ?goods = "takeWhile nonempty_page (pending w)"
  have goods: "\<forall>g\<in>set ?goods. nonempty_page g" by (auto dest: set_takeWhileD)
  from assms obtain x where "refreshCache_loop f [] [] w = Some x"
    by (auto simp: refreshCache_def split: option.splits)
  then obtain r0 f0 w0 where "refreshCache_loop f [] [] w = Some (r0, f0, w0)"
    by (cases x) auto
  from refreshCache_loop_SomeD [OF this] obtain t rest where
    tail: "dropWhile nonempty_page (pending w) = t # rest"
    and rest: "case page_outcome t of Inl err \<Rightarrow> rest \<noteq> [] | Inr p \<Rightarrow> True"
    by blast
  have split: "pending w = ?goods @ t # rest"
    using tail by (metis takeWhile_dropWhile_id)
  have t: "\<not> nonempty_page t"
    using tail by (metis hd_dropWhile list.sel(1) list.distinct(1))
  show thesis
  proof (cases "page_outcome t")
    case (Inl err)
    with rest obtain c rest' where "rest = c # rest'" by (cases rest) auto
    with split have p: "pending w = ?goods @ t # c # rest'" by simp
    from refreshCache_failure [OF p goods Inl, of f] assms
    show thesis by (intro failure [OF p goods Inl]) auto
  next
    case (Inr p)
    with t have empty: "Hits p = []" by simp
    show thesis
    proof (cases rest)
      case Nil
      with split have "pending w = ?goods @ [t]" by simp
      from refreshCache_success_hang [OF this goods Inr empty, of f] assms
      show thesis by simp
    next
      case (Cons c rest')
      with split have p: "pending w = ?goods @ t # c # rest'" by simp
      from refreshCache_success [OF p goods Inr empty, of f] assms
      show thesis by (intro success [OF p goods Inr empty]) auto
    qed
  qed
qed

lemma refreshCache_selects:
  assumes "refreshCache f w = Some (r, f', w')"
  shows "selects w' = selects w"
  using assms by (cases rule: refreshCache_cases) simp_all

lemma refresh_selects:
  assumes "refresh f w = Some (stop, f', w')"
  shows "selects w' = selects w"
proof -
  from assms obtain r wc where "refreshCache f w = Some (r, f', wc)" "selects w' = selects wc"
    by (auto simp: refresh_def Let_def split: option.splits if_splits)
  then show ?thesis by (simp add: refreshCache_selects)
qed

lemma select_refresh_shorter:
  assumes "select w = Some (s, w1)" and "refresh f w1 = Some (stop, f', w2)"
  shows "length (selects w2) < length (selects w)"
proof -
  from assms(1) have "length (selects w1) < length (selects w)"
    by (auto simp: select_def split: list.splits)
  with refresh_selects [OF assms(2)] show ?thesis by simp
qed

subsection \<open>Run\<close>

text \<open>
  The ticker loop of \<^verbatim>\<open>Run\<close>: each iteration waits in the \<^verbatim>\<open>select\<close> for the
  context or the ticker. \<^verbatim>\<open>Run\<close> itself starts with the select that has a
  \<^verbatim>\<open>default\<close> case and, unless that ends it, makes the ticker and enters the loop.
\<close>

function Run_loop ::
  "ElasticsearchFetcher \<Rightarrow> world \<Rightarrow> (error option \<times> ElasticsearchFetcher \<times> world) option" where
  "Run_loop f w =
     (case select w of
        None \<Rightarrow> None
      | Some (CtxDone e, w') \<Rightarrow> Some (Some e, f, w')
      | Some (Proceed, w') \<Rightarrow>
          (case refresh f w' of
             None \<Rightarrow> None
           | Some (stop, f', w'') \<Rightarrow>
               if stop then Some (None, f', w'') else Run_loop f' w''))"
  by pat_completeness auto
termination
  by (relation "measure (\<lambda>(f, w). length (selects w))")
    (auto intro: select_refresh_shorter)

declare Run_loop.simps [simp del]

text \<open>
  How \<^verbatim>\<open>Run\<close> ends: it returns an error or nil, or it panics. \<^verbatim>\<open>time.NewTicker\<close> panics
  when the interval it is given is not positive.
\<close>

datatype exit = Return "error option" | Panic

definition Run ::
  "ElasticsearchFetcher \<Rightarrow> world \<Rightarrow> (exit \<times> ElasticsearchFetcher \<times> world) option" where
  "Run f w =
     (case select w of
        None \<Rightarrow> None
      | Some (CtxDone e, w') \<Rightarrow> Some (Return (Some e), f, w')
      | Some (Proceed, w') \<Rightarrow>
          (case refresh f w' of
             None \<Rightarrow> None
           | Some (stop, f', w'') \<Rightarrow>
               if stop then Some (Return None, f', w'')
               else if cacheDuration f' \<le> 0 then Some (Panic, f', w'')
               else (case Run_loop f' w'' of
                       None \<Rightarrow> None
                     | Some (r, f2, w2) \<Rightarrow> Some (Return r, f2, w2))))"

section \<open>Cycles and runs, read off the trace\<close>

subsection \<open>The exchanges of a cycle\<close>

text \<open>
  \<open>exchanges_since w w'\<close> is what an operation that led from world \<open>w\<close> to \<open>w'\<close> added
  to the trace: its requests, each with its outcome, in the order they were made. Among
  them, the page exchanges are those of search and scroll requests and the clear
  exchanges those of clear-scroll requests; \<open>gathered\<close> is the records of the pages
  received, in that order; \<open>permanent_seen\<close> says that a page request was answered with
  status 401 or 403.
\<close>

fun is_page_request :: "request \<Rightarrow> bool" where
  "is_page_request (SearchRequest index sz scroll) = True"
| "is_page_request (ScrollRequest scrollID scroll) = True"
| "is_page_request (ClearScrollRequest scrollIDs) = False"

definition exchanges_since :: "world \<Rightarrow> world \<Rightarrow> exchange list" where
  "exchanges_since w w' = drop (length (trace w)) (trace w')"

definition page_exchanges :: "exchange list \<Rightarrow> exchange list" where
  "page_exchanges exs = filter (\<lambda>ex. is_page_request (fst ex)) exs"

definition clear_exchanges :: "exchange list \<Rightarrow> exchange list" where
  "clear_exchanges exs = filter (\<lambda>ex. \<not> is_page_request (fst ex)) exs"

definition gathered :: "exchange list \<Rightarrow> AgentConfig list" where
  "gathered exs = concat (map (\<lambda>ex. page_records (snd ex)) (page_exchanges exs))"

definition permanent_seen :: "exchange list \<Rightarrow> bool" where
  "permanent_seen exs = list_ex (\<lambda>ex. permanent (snd ex)) (page_exchanges exs)"

lemma is_page_request_page_request [simp]: "is_page_request (page_request f scrollID)"
  by (simp add: page_request_def)

lemma exchanges_since_append [simp]:
  "trace w' = trace w @ new \<Longrightarrow> exchanges_since w w' = new"
  by (simp add: exchanges_since_def)

lemma page_exchanges_append [simp]:
  "page_exchanges (xs @ ys) = page_exchanges xs @ page_exchanges ys"
  by (simp add: page_exchanges_def)

lemma clear_exchanges_append [simp]:
  "clear_exchanges (xs @ ys) = clear_exchanges xs @ clear_exchanges ys"
  by (simp add: clear_exchanges_def)

lemma page_exchanges_page_trace [simp]:
  "page_exchanges (page_trace f scrollID outs) = page_trace f scrollID outs"
  by (induction outs arbitrary: scrollID) (simp_all add: page_exchanges_def)

lemma clear_exchanges_page_trace [simp]:
  "clear_exchanges (page_trace f scrollID outs) = []"
  by (induction outs arbitrary: scrollID) (simp_all add: clear_exchanges_def)

lemma exchanges_clear [simp]:
  "page_exchanges [(ClearScrollRequest ids, c)] = []"
  "clear_exchanges [(ClearScrollRequest ids, c)] = [(ClearScrollRequest ids, c)]"
  by (simp_all add: page_exchanges_def clear_exchanges_def)

lemma map_snd_page_trace [simp]: "map snd (page_trace f scrollID outs) = outs"
  by (induction outs arbitrary: scrollID) simp_all

lemma length_page_trace [simp]: "length (page_trace f scrollID outs) = length outs"
  by (induction outs arbitrary: scrollID) simp_all

lemma gathered_page_trace:
  "concat (map (\<lambda>ex. page_records (snd ex)) (page_trace f scrollID outs)) =
   concat (map page_records outs)"
  by (induction outs arbitrary: scrollID) simp_all

lemma gathered_cycle:
  assumes "page_records t = []"
  shows "gathered (page_trace f scrollID (goods @ [t]) @ [(ClearScrollRequest ids, c)]) =
         concat (map page_records goods)"
  by (simp add: gathered_def gathered_page_trace assms)

lemma list_ex_snd: "list_ex (\<lambda>ex. P (snd ex)) xs = list_ex P (map snd xs)"
  by (induction xs) simp_all

lemma permanent_seen_cycle:
  assumes "\<forall>g\<in>set goods. nonempty_page g"
  shows "permanent_seen (page_trace f scrollID (goods @ [t]) @ [(ClearScrollRequest ids, c)]) =
         permanent t"
  using assms by (auto simp: permanent_seen_def list_ex_snd list_ex_iff)

lemma refreshCache_failure_frame:
  assumes "refreshCache f w = Some (Some err, f', w')"
  shows "f' = (if permanent_seen (exchanges_since w w') then f\<lparr>invalidESCfg := True\<rparr> else f)"
  using assms
proof (cases rule: refreshCache_cases)
  case (failure goods t c rest err')
  have "trace w' = trace w @
      page_trace f [] (goods @ [t]) @ [(ClearScrollRequest [last_scrollID [] goods], c)]"
    by (simp add: failure(6))
  then have new: "exchanges_since w w' =
      page_trace f [] (goods @ [t]) @ [(ClearScrollRequest [last_scrollID [] goods], c)]"
    by (rule exchanges_since_append)
  show ?thesis
    unfolding new permanent_seen_cycle [OF failure(2)]
    by (simp add: failure(5) classify_def)
qed simp

lemma successful_cycle_published:
  assumes "refreshCache f w = Some (None, f', w')"
  shows "cache f' = gathered (exchanges_since w w')"
  using assms
proof (cases rule: refreshCache_cases)
  case (success goods t c rest p)
  have "trace w' = trace w @
      page_trace f [] (goods @ [t]) @ [(ClearScrollRequest [ScrollID p], c)]"
    by (simp add: success(7))
  then have "exchanges_since w w' =
      page_trace f [] (goods @ [t]) @ [(ClearScrollRequest [ScrollID p], c)]"
    by (rule exchanges_since_append)
  then show ?thesis by (simp add: gathered_cycle success)
qed simp

lemma clear_log_last:
  "case c of
     Inl e \<Rightarrow> last (logs (clear_log c w)) = (WarnLevel, FailedToClearScroll e)
   | Inr resp \<Rightarrow>
       IsError resp \<longrightarrow>
       last (logs (clear_log c w)) = (WarnLevel, ClearScrollReturnedError (StatusCode resp))"
  by (cases c) (simp_all add: clear_log_def log_def)

lemma swap_clear_outcome:
  "(goods @ t # c # rest)[Suc (length goods) := c'] = goods @ t # c' # rest"
  by (simp add: list_update_append)

subsection \<open>What one cycle does to the flags\<close>

lemma permanent_seen_append:
  "permanent_seen (xs @ ys) \<longleftrightarrow> permanent_seen xs \<or> permanent_seen ys"
  by (simp add: permanent_seen_def)

lemma permanent_seen_Nil [simp]: "\<not> permanent_seen []"
  by (simp add: permanent_seen_def page_exchanges_def)

lemma last_page_trace_snoc [simp]:
  "snd (last (page_trace f scrollID (goods @ [t]))) = t"
  by (simp add: page_trace_append)

lemma page_trace_snoc_not_Nil [simp]: "page_trace f scrollID (goods @ [t]) \<noteq> []"
  by (simp add: page_trace_append)

lemma refreshCache_summary:
  assumes "refreshCache f w = Some (r, f', w')"
  shows "\<exists>new l. trace w' = trace w @ new \<and> logs w' = logs w @ l \<and>
           page_exchanges new \<noteq> [] \<and>
           (permanent_seen new \<longleftrightarrow> permanent (snd (last (page_exchanges new)))) \<and>
           (permanent_seen new \<longrightarrow> r \<noteq> None) \<and>
           (invalidESCfg f' \<longleftrightarrow> invalidESCfg f \<or> permanent_seen new) \<and>
           (cacheInitialized f' \<longleftrightarrow> cacheInitialized f \<or> r = None)"
  using assms
proof (cases rule: refreshCache_cases)
  case (success goods t c rest p)
  let ?new = "page_trace f [] (goods @ [t]) @ [(ClearScrollRequest [ScrollID p], c)]"
  have "trace w' = trace w @ ?new" by (simp add: success(7))
  moreover have "\<exists>l. logs w' = logs w @ l"
    by (cases c) (simp_all add: success(7) clear_log_def log_def)
  moreover have "\<not> permanent_seen ?new"
    using success(3) by (simp add: permanent_seen_cycle [OF success(2)])
  moreover have "\<not> permanent t" using success(3) by simp
  ultimately show ?thesis
    using success(5,6) by (intro exI [of _ ?new]) auto
next
  case (failure goods t c rest err)
  let ?new = "page_trace f [] (goods @ [t]) @ [(ClearScrollRequest [last_scrollID [] goods], c)]"
  have "trace w' = trace w @ ?new" by (simp add: failure(6))
  moreover have "\<exists>l. logs w' = logs w @ l"
    by (cases c; cases t)
      (auto simp: failure(6) clear_log_def page_log_def log_def split: sum.splits)
  moreover have "permanent_seen ?new = permanent t"
    by (simp add: permanent_seen_cycle [OF failure(2)])
  ultimately show ?thesis
    using failure(4,5) by (intro exI [of _ ?new]) auto
qed

lemma refresh_summary:
  assumes "refresh f w = Some (stop, f', w')"
  shows "\<exists>new l. trace w' = trace w @ new \<and> logs w' = logs w @ l \<and>
           page_exchanges new \<noteq> [] \<and>
           (permanent_seen new \<longleftrightarrow> permanent (snd (last (page_exchanges new)))) \<and>
           (invalidESCfg f' \<longleftrightarrow> invalidESCfg f \<or> permanent_seen new) \<and>
           (cacheInitialized f \<longrightarrow> cacheInitialized f') \<and>
           (cacheInitialized f' \<and> \<not> cacheInitialized f \<longrightarrow>
              (DebugLevel, RefreshCacheSuccess) \<in> set l) \<and>
           (stop \<longrightarrow> invalidESCfg f') \<and>
           (permanent_seen new \<longrightarrow> stop) \<and>
           (\<not> stop \<and> \<not> invalidESCfg f \<longrightarrow> \<not> invalidESCfg f')"
proof -
  from assms obtain r wc where cycle: "refreshCache f w = Some (r, f', wc)"
    and stop: "stop \<longleftrightarrow> r \<noteq> None \<and> invalidESCfg f'"
    and tr: "trace w' = trace wc"
    and lg: "\<exists>l. logs w' = logs wc @ l \<and> (r = None \<longrightarrow> (DebugLevel, RefreshCacheSuccess) \<in> set l)"
    by (auto simp: refresh_def Let_def log_def split: option.splits if_splits)
  from refreshCache_summary [OF cycle] obtain new l1 where
    new: "trace wc = trace w @ new" "logs wc = logs w @ l1" "page_exchanges new \<noteq> []"
      "permanent_seen new \<longleftrightarrow> permanent (snd (last (page_exchanges new)))"
      "permanent_seen new \<longrightarrow> r \<noteq> None"
      "invalidESCfg f' \<longleftrightarrow> invalidESCfg f \<or> permanent_seen new"
      "cacheInitialized f' \<longleftrightarrow> cacheInitialized f \<or> r = None"
    by blast
  from lg obtain l2 where l2: "logs w' = logs wc @ l2"
    "r = None \<longrightarrow> (DebugLevel, RefreshCacheSuccess) \<in> set l2" by blast
  have "logs w' = logs w @ (l1 @ l2)" by (simp add: l2(1) new(2))
  moreover have "cacheInitialized f' \<and> \<not> cacheInitialized f \<longrightarrow>
      (DebugLevel, RefreshCacheSuccess) \<in> set (l1 @ l2)"
    using new(7) l2(2) by auto
  moreover have "trace w' = trace w @ new" by (simp add: tr new(1))
  ultimately show ?thesis
    using new(3,4,5,6,7) stop by (intro exI [of _ new] exI [of _ "l1 @ l2"]) blast
qed

subsection \<open>What a run does\<close>

text \<open>
  The summary of a run that has returned \<open>r\<close>, from fetcher \<open>f\<close> and world \<open>w\<close> to
  \<open>f'\<close> and \<open>w'\<close>: the select outcomes it \<open>consumed\<close>, the exchanges \<open>new\<close> it added to
  the trace and the lines \<open>l\<close> it added to the log.
\<close>

definition run_summary ::
  "ElasticsearchFetcher \<Rightarrow> world \<Rightarrow> error option \<Rightarrow> ElasticsearchFetcher \<Rightarrow> world \<Rightarrow>
     select_case list \<Rightarrow> exchange list \<Rightarrow> (level \<times> message) list \<Rightarrow> bool" where
  "run_summary f w r f' w' consumed new l \<longleftrightarrow>
     selects w = consumed @ selects w' \<and> consumed \<noteq> [] \<and>
     list_all (\<lambda>s. s = Proceed) (butlast consumed) \<and>
     trace w' = trace w @ new \<and> logs w' = logs w @ l \<and>
     (\<forall>e. r = Some e \<longleftrightarrow> last consumed = CtxDone e) \<and>
     (invalidESCfg f \<longrightarrow> invalidESCfg f') \<and>
     (cacheInitialized f \<longrightarrow> cacheInitialized f') \<and>
     (invalidESCfg f' \<longrightarrow> invalidESCfg f \<or> permanent_seen new) \<and>
     (cacheInitialized f' \<and> \<not> cacheInitialized f \<longrightarrow>
        (DebugLevel, RefreshCacheSuccess) \<in> set l) \<and>
     (\<not> invalidESCfg f \<longrightarrow>
        (r = None \<longrightarrow>
           invalidESCfg f' \<and> page_exchanges new \<noteq> [] \<and>
           permanent (snd (last (page_exchanges new)))) \<and>
        (r \<noteq> None \<longrightarrow> \<not> invalidESCfg f' \<and> \<not> permanent_seen new))"

lemma select_SomeD:
  assumes "select w = Some (s, w1)"
  shows "selects w = s # selects w1" and "trace w1 = trace w" and "logs w1 = logs w"
    and "pending w1 = pending w"
  using assms by (auto simp: select_def split: list.splits)

lemma run_summary_cancel:
  assumes "select w = Some (CtxDone e, w1)"
  shows "run_summary f w (Some e) f w1 [CtxDone e] [] []"
  using select_SomeD [OF assms] by (simp add: run_summary_def)

lemma run_summary_stop:
  assumes "select w = Some (Proceed, w1)" and "refresh f w1 = Some (True, f', w')"
  shows "\<exists>new l. run_summary f w None f' w' [Proceed] new l"
proof -
  from refresh_summary [OF assms(2)] obtain new l where
    new: "trace w' = trace w1 @ new" "logs w' = logs w1 @ l" "page_exchanges new \<noteq> []"
      "permanent_seen new \<longleftrightarrow> permanent (snd (last (page_exchanges new)))"
      "invalidESCfg f' \<longleftrightarrow> invalidESCfg f \<or> permanent_seen new"
      "cacheInitialized f \<longrightarrow> cacheInitialized f'"
      "cacheInitialized f' \<and> \<not> cacheInitialized f \<longrightarrow> (DebugLevel, RefreshCacheSuccess) \<in> set l"
      "invalidESCfg f'"
    by blast
  have "selects w = [Proceed] @ selects w'"
    using select_SomeD(1) [OF assms(1)] refresh_selects [OF assms(2)] by simp
  with new select_SomeD(2,3) [OF assms(1)] have "run_summary f w None f' w' [Proceed] new l"
    unfolding run_summary_def by auto
  then show ?thesis by blast
qed

lemma run_summary_continue:
  assumes "select w = Some (Proceed, w1)" and "refresh f w1 = Some (False, f1, w2)"
    and "run_summary f1 w2 r f' w' consumed2 new2 l2"
  shows "\<exists>new l. run_summary f w r f' w' (Proceed # consumed2) new l"
proof -
  from refresh_summary [OF assms(2)] obtain new1 l1 where
    new: "trace w2 = trace w1 @ new1" "logs w2 = logs w1 @ l1"
      "invalidESCfg f1 \<longleftrightarrow> invalidESCfg f \<or> permanent_seen new1"
      "cacheInitialized f \<longrightarrow> cacheInitialized f1"
      "cacheInitialized f1 \<and> \<not> cacheInitialized f \<longrightarrow> (DebugLevel, RefreshCacheSuccess) \<in> set l1"
      "\<not> permanent_seen new1"
      "\<not> invalidESCfg f \<longrightarrow> \<not> invalidESCfg f1"
    by blast
  note rest = assms(3) [unfolded run_summary_def]
  have sel: "selects w = (Proceed # consumed2) @ selects w'"
    using select_SomeD(1) [OF assms(1)] refresh_selects [OF assms(2)] rest by simp
  have tr: "trace w' = trace w @ (new1 @ new2)"
    using select_SomeD(2) [OF assms(1)] new(1) rest by simp
  have lg: "logs w' = logs w @ (l1 @ l2)"
    using select_SomeD(3) [OF assms(1)] new(2) rest by simp
  have butlast: "list_all (\<lambda>s. s = Proceed) (butlast (Proceed # consumed2))"
    using rest by simp
  have lst: "\<forall>e. r = Some e \<longleftrightarrow> last (Proceed # consumed2) = CtxDone e"
    using rest by simp
  have mono: "(invalidESCfg f \<longrightarrow> invalidESCfg f') \<and> (cacheInitialized f \<longrightarrow> cacheInitialized f')"
    using rest new(3,4) by blast
  have why_invalid: "invalidESCfg f' \<longrightarrow> invalidESCfg f \<or> permanent_seen (new1 @ new2)"
    using rest new(3) by (auto simp: permanent_seen_append)
  have why_init: "cacheInitialized f' \<and> \<not> cacheInitialized f \<longrightarrow>
      (DebugLevel, RefreshCacheSuccess) \<in> set (l1 @ l2)"
    using rest new(5) by auto
  have fresh: "\<not> invalidESCfg f \<longrightarrow>
        (r = None \<longrightarrow>
           invalidESCfg f' \<and> page_exchanges (new1 @ new2) \<noteq> [] \<and>
           permanent (snd (last (page_exchanges (new1 @ new2))))) \<and>
        (r \<noteq> None \<longrightarrow> \<not> invalidESCfg f' \<and> \<not> permanent_seen (new1 @ new2))"
    using rest new(6,7) by (auto simp: permanent_seen_append)
  have "run_summary f w r f' w' (Proceed # consumed2) (new1 @ new2) (l1 @ l2)"
    unfolding run_summary_def
    using sel tr lg butlast lst mono why_invalid why_init fresh by blast
  then show ?thesis by blast
qed

lemma Run_loop_summary:
  assumes "Run_loop f w = Some (r, f', w')"
  shows "\<exists>consumed new l. run_summary f w r f' w' consumed new l"
  using assms
proof (induction f w rule: Run_loop.induct)
  case (1 f w)
  from "1.prems" obtain s w1 where sel: "select w = Some (s, w1)"
    by (subst (asm) Run_loop.simps) (auto split: option.splits)
  show ?case
  proof (cases s)
    case (CtxDone e)
    with "1.prems" sel have "r = Some e" "f' = f" "w' = w1"
      by (subst (asm) Run_loop.simps, simp)+
    with run_summary_cancel [of w e w1 f] sel CtxDone show ?thesis by blast
  next
    case Proceed
    with "1.prems" sel obtain stop f1 w2 where ref: "refresh f w1 = Some (stop, f1, w2)"
      by (subst (asm) Run_loop.simps) (auto split: option.splits)
    show ?thesis
    proof (cases stop)
      case True
      with "1.prems" sel Proceed ref have "r = None" "f' = f1" "w' = w2"
        by (subst (asm) Run_loop.simps, simp)+
      moreover from sel Proceed have "select w = Some (Proceed, w1)" by simp
      moreover from ref True have "refresh f w1 = Some (True, f1, w2)" by simp
      ultimately show ?thesis using run_summary_stop [of w w1 f f1 w2] by blast
    next
      case False
      with "1.prems" sel Proceed ref have "Run_loop f1 w2 = Some (r, f', w')"
        by (subst (asm) Run_loop.simps) simp
      with "1.IH" [of "(Proceed, w1)" Proceed w1 "(stop, f1, w2)" stop "(f1, w2)" f1 w2]
        sel Proceed ref False
      obtain consumed2 new2 l2 where "run_summary f1 w2 r f' w' consumed2 new2 l2"
        by auto
      moreover from sel Proceed have "select w = Some (Proceed, w1)" by simp
      moreover from ref False have "refresh f w1 = Some (False, f1, w2)" by simp
      ultimately show ?thesis using run_summary_continue [of w w1 f f1 w2] by blast
    qed
  qed
qed

lemma refresh_cacheDuration:
  assumes "refresh f w = Some (stop, f', w')"
  shows "cacheDuration f' = cacheDuration f"
proof -
  from assms obtain r wc where "refreshCache f w = Some (r, f', wc)"
    by (auto simp: refresh_def Let_def split: option.splits if_splits)
  then show ?thesis by (cases rule: refreshCache_cases) simp_all
qed

lemma Run_Return:
  assumes "Run f w = Some (Return r, f', w')"
  shows "Run_loop f w = Some (r, f', w')"
  using assms
  by (subst Run_loop.simps)
    (auto simp: Run_def split: option.splits select_case.splits if_splits)

lemma Run_Panic:
  assumes "Run f w = Some (Panic, f', w')"
  shows "cacheDuration f \<le> 0 \<and>
         (\<exists>w1. select w = Some (Proceed, w1) \<and> refresh f w1 = Some (False, f', w'))"
proof -
  from assms obtain w1 where w1: "select w = Some (Proceed, w1)"
    and r: "refresh f w1 = Some (False, f', w')" and d: "cacheDuration f' \<le> 0"
    by (auto simp: Run_def split: option.splits select_case.splits if_splits)
  from refresh_cacheDuration [OF r] d have "cacheDuration f \<le> 0" by simp
  with w1 r show ?thesis by blast
qed

lemma Run_positive:
  assumes "0 < cacheDuration f"
  shows "Run f w = map_option (\<lambda>(r, f', w'). (Return r, f', w')) (Run_loop f w)"
proof (cases "select w")
  case None
  then show ?thesis by (simp add: Run_def Run_loop.simps [of f w])
next
  case (Some sw)
  obtain s w1 where sw: "sw = (s, w1)" by (cases sw)
  show ?thesis
  proof (cases s)
    case (CtxDone e)
    with Some sw show ?thesis by (simp add: Run_def Run_loop.simps [of f w])
  next
    case Proceed
    show ?thesis
    proof (cases "refresh f w1")
      case None
      with \<open>select w = Some sw\<close> sw Proceed show ?thesis
        by (simp add: Run_def Run_loop.simps [of f w])
    next
      case (Some x)
      obtain stop f1 w2 where x: "x = (stop, f1, w2)" by (cases x) auto
      from Some x have "cacheDuration f1 = cacheDuration f"
        by (auto dest: refresh_cacheDuration)
      with assms Some x \<open>select w = Some sw\<close> sw Proceed show ?thesis
        by (auto simp: Run_def Run_loop.simps [of f w] split: option.splits)
    qed
  qed
qed


subsection \<open>Running a script\<close>

lemma refresh_success:
  assumes "pending w = goods @ t # c # rest" and "\<forall>g\<in>set goods. nonempty_page g"
    and "page_outcome t = Inr p" and "Hits p = []"
  shows "\<exists>w'. refresh f w =
           Some (False,
                 f\<lparr>cache := concat (map page_records goods), cacheInitialized := True,
                   last_time := now w\<rparr>, w') \<and>
           pending w' = rest \<and> selects w' = selects w \<and> now w' = now w"
  by (simp add: refresh_def refreshCache_success [OF assms])

lemma refresh_failure:
  assumes "pending w = goods @ t # c # rest" and "\<forall>g\<in>set goods. nonempty_page g"
    and "page_outcome t = Inl err"
  shows "\<exists>w'. refresh f w = Some (invalidESCfg f \<or> permanent t, classify f t, w') \<and>
           pending w' = rest \<and> selects w' = selects w \<and> now w' = now w"
  by (simp add: refresh_def refreshCache_failure [OF assms] Let_def)

lemma Run_loop_Proceed:
  assumes "selects w = Proceed # sels"
  shows "Run_loop f w =
         (case refresh f (w\<lparr>selects := sels\<rparr>) of
            None \<Rightarrow> None
          | Some (stop, f', w'') \<Rightarrow> if stop then Some (None, f', w'') else Run_loop f' w'')"
  by (subst Run_loop.simps) (simp add: select_def assms)

lemma Run_loop_success_step:
  assumes "selects w = Proceed # sels" and "pending w = goods @ t # c # rest"
    and "\<forall>g\<in>set goods. nonempty_page g" and "page_outcome t = Inr p" and "Hits p = []"
  shows "\<exists>w'. Run_loop f w =
           Run_loop (f\<lparr>cache := concat (map page_records goods), cacheInitialized := True,
                      last_time := now w\<rparr>) w' \<and>
           pending w' = rest \<and> selects w' = sels \<and> now w' = now w"
proof -
  from assms(2) have "pending (w\<lparr>selects := sels\<rparr>) = goods @ t # c # rest" by simp
  from refresh_success [OF this assms(3,4,5), of f] show ?thesis
    unfolding Run_loop_Proceed [OF assms(1)] by auto
qed


lemma Run_loop_permanent_step:
  assumes "selects w = Proceed # sels" and "pending w = goods @ t # c # rest"
    and "\<forall>g\<in>set goods. nonempty_page g" and "page_outcome t = Inl err"
    and "permanent t"
  shows "\<exists>w'. Run_loop f w = Some (None, f\<lparr>invalidESCfg := True\<rparr>, w') \<and>
           pending w' = rest \<and> selects w' = sels \<and> now w' = now w"
proof -
  from assms(2) have "pending (w\<lparr>selects := sels\<rparr>) = goods @ t # c # rest" by simp
  from refresh_failure [OF this assms(3,4), of f] assms(5) show ?thesis
    unfolding Run_loop_Proceed [OF assms(1)] by (auto simp: classify_def)
qed


section \<open>Example inputs\<close>

text \<open>
  Responses, scripts and fetchers on which the theorems below are run: a search answered
  by two pages of two hits and an empty page, the same two pages followed by a failure,
  a fetcher that already serves a cache, and the select outcomes of some runs.
\<close>

definition example_hit :: "string \<Rightarrow> hit" where
  "example_hit name =
     \<lparr>Settings = Map.empty, Service_Name = name, Service_Environment = ''production'',
      Source_AgentName = ''go'', ETag = ''1''\<rparr>"

definition ok_response :: "cacheResult \<Rightarrow> error + response" where
  "ok_response p = Inr \<lparr>StatusCode = 200, ReadAll = Inr [], Decode = Inr p\<rparr>"

definition status_response :: "int \<Rightarrow> error + response" where
  "status_response code =
     Inr \<lparr>StatusCode = code, ReadAll = Inr ''denied'', Decode = Inl (ExternalError ''EOF'')\<rparr>"

definition malformed_response :: "error + response" where
  "malformed_response =
     Inr \<lparr>StatusCode = 200, ReadAll = Inr ''{'', Decode = Inl (ExternalError ''unexpected EOF'')\<rparr>"

definition refused :: "error + response" where
  "refused = Inl (ExternalError ''connection refused'')"

definition canceled :: error where
  "canceled = ExternalError ''context canceled''"

definition script_world :: "(error + response) list \<Rightarrow> select_case list \<Rightarrow> world" where
  "script_world outs sels = \<lparr>pending = outs, selects = sels, trace = [], logs = [], now = 1\<rparr>"

lemma script_world_simps [simp]:
  "pending (script_world outs sels) = outs"
  "selects (script_world outs sels) = sels"
  "trace (script_world outs sels) = []"
  "logs (script_world outs sels) = []"
  "now (script_world outs sels) = 1"
  by (simp_all add: script_world_def)

lemma example_outcomes [simp]:
  "page_outcome (ok_response p) = Inr p"
  "page_outcome (status_response 401) = Inl (StatusError 401)"
  "page_outcome (status_response 403) = Inl (StatusError 403)"
  "page_outcome (status_response 500) = Inl (StatusError 500)"
  "page_outcome malformed_response = Inl (ExternalError ''unexpected EOF'')"
  "page_outcome (Inl err) = Inl err"
  by (simp_all add: page_outcome_def ok_response_def status_response_def malformed_response_def)

lemma example_permanent [simp]:
  "\<not> permanent (ok_response p)"
  "permanent (status_response 401)"
  "permanent (status_response 403)"
  "\<not> permanent (status_response 500)"
  "\<not> permanent malformed_response"
  "\<not> permanent (Inl err)"
  by (simp_all add: permanent_def ok_response_def status_response_def malformed_response_def)

definition two_pages :: "(error + response) list" where
  "two_pages =
     [ok_response \<lparr>ScrollID = ''s1'', Hits = [example_hit ''a'', example_hit ''b'']\<rparr>,
      ok_response \<lparr>ScrollID = ''s2'', Hits = [example_hit ''c'', example_hit ''d'']\<rparr>]"

definition empty_page :: "error + response" where
  "empty_page = ok_response \<lparr>ScrollID = ''s3'', Hits = []\<rparr>"

definition successful_script :: "(error + response) list" where
  "successful_script = two_pages @ [empty_page, status_response 200]"

definition failing_script :: "error + response \<Rightarrow> error + response \<Rightarrow> (error + response) list" where
  "failing_script t c = two_pages @ [t, c]"

definition stale_fetcher :: ElasticsearchFetcher where
  "stale_fetcher =
     (NewElasticsearchFetcher 30)
       \<lparr>cache := [toAgentConfig (example_hit ''old'')], cacheInitialized := True\<rparr>"

definition names :: "unit \<Rightarrow> AgentConfig list \<Rightarrow> string list" where
  "names query configs = map ServiceName configs"

lemma two_pages_nonempty: "\<forall>g\<in>set two_pages. nonempty_page g"
  by (simp add: two_pages_def)

lemma two_pages_records:
  "map ServiceName (concat (map page_records two_pages)) = [''a'', ''b'', ''c'', ''d'']"
  by (simp add: two_pages_def toAgentConfig_def example_hit_def)

lemma two_pages_last_scrollID: "last_scrollID [] two_pages = ''s2''"
  by (simp add: two_pages_def)

lemma successful_cycle:
  "refreshCache f (script_world (successful_script @ rest) sels) =
   Some (None,
         f\<lparr>cache := concat (map page_records two_pages), cacheInitialized := True,
           last_time := 1\<rparr>,
         clear_log (status_response 200)
           (script_world (successful_script @ rest) sels
              \<lparr>pending := rest,
               trace := page_trace f [] (two_pages @ [empty_page]) @
                        [(ClearScrollRequest [''s3''], status_response 200)]\<rparr>))"
  using refreshCache_success [where w = "script_world (successful_script @ rest) sels"
      and goods = two_pages and t = empty_page and c = "status_response 200" and rest = rest
      and p = "\<lparr>ScrollID = ''s3'', Hits = []\<rparr>" and f = f]
  by (simp add: successful_script_def two_pages_nonempty empty_page_def)

lemma failing_cycle:
  assumes "page_outcome t = Inl err"
  shows "refreshCache f (script_world (failing_script t c @ rest) sels) =
     Some (Some err, classify f t,
           clear_log c (page_log t
             (script_world (failing_script t c @ rest) sels
                \<lparr>pending := rest,
                 trace := page_trace f [] (two_pages @ [t]) @
                          [(ClearScrollRequest [''s2''], c)]\<rparr>)))"
  using refreshCache_failure [where w = "script_world (failing_script t c @ rest) sels"
      and goods = two_pages and t = t and c = c and rest = rest and err = err and f = f]
  by (simp add: failing_script_def two_pages_nonempty two_pages_last_scrollID assms)

definition denied_after_success :: world where
  "denied_after_success =
     script_world (successful_script @ failing_script (status_response 401) refused)
       [Proceed, Proceed, CtxDone canceled]"

definition served_but_invalid :: ElasticsearchFetcher where
  "served_but_invalid =
     (NewElasticsearchFetcher 30)
       \<lparr>cache := concat (map page_records two_pages), cacheInitialized := True,
        last_time := 1, invalidESCfg := True\<rparr>"



lemma new_fetcher_Run:
  "Run (NewElasticsearchFetcher 30) w =
   map_option (\<lambda>(r, f', w'). (Return r, f', w')) (Run_loop (NewElasticsearchFetcher 30) w)"
  by (rule Run_positive) (simp add: NewElasticsearchFetcher_def)

lemma denied_after_success_run:
  "\<exists>w'. Run (NewElasticsearchFetcher 30) denied_after_success =
          Some (Return None, served_but_invalid, w') \<and> selects w' = [CtxDone canceled]"
proof -
  let ?f0 = "NewElasticsearchFetcher 30"
  let ?f1 = "?f0\<lparr>cache := concat (map page_records two_pages), cacheInitialized := True,
                last_time := now denied_after_success\<rparr>"
  from Run_loop_success_step [where w = denied_after_success and f = ?f0 and goods = two_pages
      and t = empty_page and c = "status_response 200"
      and rest = "failing_script (status_response 401) refused"
      and sels = "[Proceed, CtxDone canceled]" and p = "\<lparr>ScrollID = ''s3'', Hits = []\<rparr>"]
  obtain w1 where w1: "Run_loop ?f0 denied_after_success = Run_loop ?f1 w1"
    "pending w1 = failing_script (status_response 401) refused"
    "selects w1 = [Proceed, CtxDone canceled]"
    by (auto simp: denied_after_success_def successful_script_def two_pages_nonempty
        empty_page_def)
  from Run_loop_permanent_step [where w = w1 and f = ?f1 and goods = two_pages
      and t = "status_response 401" and c = refused and rest = "[]"
      and sels = "[CtxDone canceled]" and err = "StatusError 401"]
  obtain w2 where "Run_loop ?f1 w1 = Some (None, ?f1\<lparr>invalidESCfg := True\<rparr>, w2)"
    "selects w2 = [CtxDone canceled]"
    by (auto simp: w1 failing_script_def two_pages_nonempty)
  with w1(1) show ?thesis
    by (auto simp: new_fetcher_Run served_but_invalid_def denied_after_success_def)
qed



section \<open>The claims\<close>

subsection \<open>C1: the readiness decision table of Fetch\<close>

text \<open>The decision table of the specification, as a function of the two flags.\<close>

datatype readiness_outcome = ServeFromCache | FailConfigInvalid | FailNotReady

fun readiness_table :: "bool \<Rightarrow> bool \<Rightarrow> readiness_outcome" where
  "readiness_table True invalid = ServeFromCache"
| "readiness_table False True = FailConfigInvalid"
| "readiness_table False False = FailNotReady"

text \<open>
  C1. The outcome of \<^verbatim>\<open>Fetch\<close> is the entry of the readiness table for the two flags: with
  an initialized cache it is the Matcher's result on the query and the current cache,
  whatever the invalid flag; not initialized and invalid, the error
  \<^verbatim>\<open>ErrNoValidElasticsearchConfig\<close>; not initialized and not invalid, the error
  \<^verbatim>\<open>ErrInfrastructureNotReady\<close>. And a fetcher that a successful refresh cycle has just
  returned is served from its cache.
\<close>

theorem Fetch_readiness_table:
  "Fetch matchAgentConfig f query =
     (case readiness_table (cacheInitialized f) (invalidESCfg f) of
        ServeFromCache \<Rightarrow> Inr (matchAgentConfig query (cache f))
      | FailConfigInvalid \<Rightarrow> Inl (ErrorString ErrNoValidElasticsearchConfig)
      | FailNotReady \<Rightarrow> Inl (ErrorString ErrInfrastructureNotReady))
   \<and> (refreshCache f0 w = Some (None, f, w') \<longrightarrow>
        Fetch matchAgentConfig f query = Inr (matchAgentConfig query (cache f)))"
proof
  show "Fetch matchAgentConfig f query =
     (case readiness_table (cacheInitialized f) (invalidESCfg f) of
        ServeFromCache \<Rightarrow> Inr (matchAgentConfig query (cache f))
      | FailConfigInvalid \<Rightarrow> Inl (ErrorString ErrNoValidElasticsearchConfig)
      | FailNotReady \<Rightarrow> Inl (ErrorString ErrInfrastructureNotReady))"
    by (cases "cacheInitialized f"; cases "invalidESCfg f") (simp_all add: Fetch_def)
  show "refreshCache f0 w = Some (None, f, w') \<longrightarrow>
        Fetch matchAgentConfig f query = Inr (matchAgentConfig query (cache f))"
  proof
    assume "refreshCache f0 w = Some (None, f, w')"
    then have "cacheInitialized f"
      by (cases rule: refreshCache_cases) simp_all
    then show "Fetch matchAgentConfig f query = Inr (matchAgentConfig query (cache f))"
      by (simp add: Fetch_def)
  qed
qed

theorem Fetch_readiness_table_witness:
  "(\<exists>w'. refreshCache (NewElasticsearchFetcher 30) (script_world successful_script []) =
          Some (None,
                (NewElasticsearchFetcher 30)
                  \<lparr>cache := concat (map page_records two_pages), cacheInitialized := True,
                   last_time := 1\<rparr>, w'))
   \<and> Fetch names
        ((NewElasticsearchFetcher 30)
           \<lparr>cache := concat (map page_records two_pages), cacheInitialized := True,
            last_time := 1\<rparr>) () =
      Inr [''a'', ''b'', ''c'', ''d'']"
proof -
  let ?f = "NewElasticsearchFetcher 30"
  let ?f' = "?f\<lparr>cache := concat (map page_records two_pages), cacheInitialized := True,
                last_time := 1\<rparr>"
  from successful_cycle [of ?f "[]" "[]"]
  obtain w' where cycle: "refreshCache ?f (script_world successful_script []) = Some (None, ?f', w')"
    by auto
  with Fetch_readiness_table [of names ?f' "()" ?f "script_world successful_script []" w']
  have "Fetch names ?f' () = Inr (names () (cache ?f'))" by simp
  with cycle show ?thesis by (auto simp: names_def two_pages_records)
qed

subsection \<open>C2: the classification of a page response\<close>

text \<open>
  C2. Whatever the next outcome of the script is, \<^verbatim>\<open>singlePageRefresh\<close> returns, and: a
  response with status 401 or 403 is an error and sets the invalid flag; a transport
  error (a deadline that has passed is one), any other status from 400 on and a body that
  does not decode are errors that leave the fetcher as it was; so does a page that
  decodes.
\<close>

theorem singlePageRefresh_classification:
  assumes "pending w = out # rest"
  shows "\<exists>r f' w'. singlePageRefresh f scrollID w = Some (r, f', w') \<and>
     (case out of
        Inl err \<Rightarrow> r = Inl err \<and> f' = f
      | Inr resp \<Rightarrow>
          if StatusCode resp = 401 \<or> StatusCode resp = 403
          then r = Inl (StatusError (StatusCode resp)) \<and> f' = f\<lparr>invalidESCfg := True\<rparr>
          else if StatusCode resp \<ge> 400
          then r = Inl (StatusError (StatusCode resp)) \<and> f' = f
          else r = Decode resp \<and> f' = f)"
  unfolding singlePageRefresh_Cons [OF assms]
  by (cases out) (auto simp: page_outcome_def classify_def permanent_def)

theorem singlePageRefresh_classification_witness:
  "map_option (\<lambda>(r, f', w'). (r, invalidESCfg f'))
     (singlePageRefresh (NewElasticsearchFetcher 30) [] (script_world [status_response 401] [])) =
     Some (Inl (StatusError 401), True)
   \<and> map_option (\<lambda>(r, f', w'). (r, invalidESCfg f'))
     (singlePageRefresh (NewElasticsearchFetcher 30) [] (script_world [status_response 500] [])) =
     Some (Inl (StatusError 500), False)
   \<and> map_option (\<lambda>(r, f', w'). (r, invalidESCfg f'))
     (singlePageRefresh (NewElasticsearchFetcher 30) []
        (script_world [Inl (ExternalError ''context deadline exceeded'')] [])) =
     Some (Inl (ExternalError ''context deadline exceeded''), False)
   \<and> map_option (\<lambda>(r, f', w'). (r, invalidESCfg f'))
     (singlePageRefresh (NewElasticsearchFetcher 30) [] (script_world [malformed_response] [])) =
     Some (Inl (ExternalError ''unexpected EOF''), False)"
  using
    singlePageRefresh_classification [of "script_world [status_response 401] []"
      "status_response 401" "[]" "NewElasticsearchFetcher 30" "[]"]
    singlePageRefresh_classification [of "script_world [status_response 500] []"
      "status_response 500" "[]" "NewElasticsearchFetcher 30" "[]"]
    singlePageRefresh_classification [of
      "script_world [Inl (ExternalError ''context deadline exceeded'')] []"
      "Inl (ExternalError ''context deadline exceeded'')" "[]" "NewElasticsearchFetcher 30" "[]"]
    singlePageRefresh_classification [of "script_world [malformed_response] []"
      malformed_response "[]" "NewElasticsearchFetcher 30" "[]"]
  by (auto simp: status_response_def malformed_response_def NewElasticsearchFetcher_def)

subsection \<open>C3: a successful cycle publishes what its pages held\<close>



subsection \<open>C4: what makes Run return\<close>



subsection \<open>C5: one clear-scroll request per cycle\<close>

text \<open>
  C5. A cycle that returns, with an error or without, has sent exactly one clear-scroll
  request, its last request. The cycle's result and the fetcher it leaves do not depend
  on the outcome of that request: with any other outcome \<open>c'\<close> in its place in the script
  the cycle returns the same error (or none) and the same fetcher. A clear-scroll request
  that fails in transport, or is answered with an error status, ends the cycle's log with
  a warning.
\<close>

theorem one_clear_scroll_per_cycle:
  assumes "refreshCache f w = Some (r, f', w')"
  shows "length (clear_exchanges (exchanges_since w w')) = 1
     \<and> clear_exchanges (exchanges_since w w') = [last (exchanges_since w w')]
     \<and> (\<exists>w2. refreshCache f
                (w\<lparr>pending := (pending w)[length (exchanges_since w w') - 1 := c']\<rparr>) =
              Some (r, f', w2))
     \<and> (case snd (last (exchanges_since w w')) of
          Inl e \<Rightarrow> last (logs w') = (WarnLevel, FailedToClearScroll e)
        | Inr resp \<Rightarrow>
            IsError resp \<longrightarrow>
            last (logs w') = (WarnLevel, ClearScrollReturnedError (StatusCode resp)))"
  using assms
proof (cases rule: refreshCache_cases)
  case (success goods t c rest p)
  let ?w2 = "w\<lparr>pending := goods @ t # c' # rest\<rparr>"
  have "trace w' = trace w @
      page_trace f [] (goods @ [t]) @ [(ClearScrollRequest [ScrollID p], c)]"
    by (simp add: success(7))
  then have new: "exchanges_since w w' =
      page_trace f [] (goods @ [t]) @ [(ClearScrollRequest [ScrollID p], c)]"
    by (rule exchanges_since_append)
  have "pending ?w2 = goods @ t # c' # rest" by simp
  from refreshCache_success [OF this success(2,3,4), of f]
  have "\<exists>w2. refreshCache f ?w2 = Some (r, f', w2)"
    by (simp add: success(5,6))
  moreover have "case c of
       Inl e \<Rightarrow> last (logs w') = (WarnLevel, FailedToClearScroll e)
     | Inr resp \<Rightarrow>
         IsError resp \<longrightarrow>
         last (logs w') = (WarnLevel, ClearScrollReturnedError (StatusCode resp))"
    unfolding success(7) by (rule clear_log_last)
  ultimately show ?thesis
    unfolding new by (simp add: success(1) swap_clear_outcome)
next
  case (failure goods t c rest err)
  let ?w2 = "w\<lparr>pending := goods @ t # c' # rest\<rparr>"
  have "trace w' = trace w @
      page_trace f [] (goods @ [t]) @ [(ClearScrollRequest [last_scrollID [] goods], c)]"
    by (simp add: failure(6))
  then have new: "exchanges_since w w' =
      page_trace f [] (goods @ [t]) @ [(ClearScrollRequest [last_scrollID [] goods], c)]"
    by (rule exchanges_since_append)
  have "pending ?w2 = goods @ t # c' # rest" by simp
  from refreshCache_failure [OF this failure(2,3), of f]
  have "\<exists>w2. refreshCache f ?w2 = Some (r, f', w2)"
    by (simp add: failure(4,5))
  moreover have "case c of
       Inl e \<Rightarrow> last (logs w') = (WarnLevel, FailedToClearScroll e)
     | Inr resp \<Rightarrow>
         IsError resp \<longrightarrow>
         last (logs w') = (WarnLevel, ClearScrollReturnedError (StatusCode resp))"
    unfolding failure(6) by (rule clear_log_last)
  ultimately show ?thesis
    unfolding new by (simp add: failure(1) swap_clear_outcome)
qed

theorem one_clear_scroll_per_cycle_witness:
  "\<exists>w'. refreshCache stale_fetcher
           (script_world (failing_script (status_response 500) refused) []) =
         Some (Some (StatusError 500), stale_fetcher, w') \<and>
         length (clear_exchanges
           (exchanges_since (script_world (failing_script (status_response 500) refused) []) w')) = 1 \<and>
         last (logs w') = (WarnLevel, FailedToClearScroll (ExternalError ''connection refused'')) \<and>
         (\<exists>w2. refreshCache stale_fetcher
            (script_world (failing_script (status_response 500) (status_response 200)) []) =
          Some (Some (StatusError 500), stale_fetcher, w2))"
proof -
  let ?w = "script_world (failing_script (status_response 500) refused) []"
  from failing_cycle [of "status_response 500" "StatusError 500" stale_fetcher refused "[]" "[]"]
  obtain w' where cycle: "refreshCache stale_fetcher ?w = Some (Some (StatusError 500), stale_fetcher, w')"
    and w': "trace w' = page_trace stale_fetcher [] (two_pages @ [status_response 500]) @
                        [(ClearScrollRequest [''s2''], refused)]"
    by (auto simp: classify_def)
  from w' have new: "exchanges_since ?w w' =
      page_trace stale_fetcher [] (two_pages @ [status_response 500]) @
      [(ClearScrollRequest [''s2''], refused)]"
    by (simp add: exchanges_since_def)
  have swap: "?w\<lparr>pending := (pending ?w)[length (exchanges_since ?w w') - 1 := status_response 200]\<rparr> =
      script_world (failing_script (status_response 500) (status_response 200)) []"
    unfolding new by (simp add: failing_script_def two_pages_def script_world_def)
  from one_clear_scroll_per_cycle [OF cycle, of "status_response 200"] cycle
  show ?thesis
    unfolding swap by (auto simp: new w' exchanges_since_def refused_def)
qed

subsection \<open>C6: a failed cycle leaves the snapshot alone\<close>

text \<open>
  C6. A cycle that returns an error leaves \<^verbatim>\<open>cache\<close>, \<^verbatim>\<open>cacheInitialized\<close> and
  \<^verbatim>\<open>last\<close> as they were; when no page response of the cycle had status 401 or 403, it
  leaves \<^verbatim>\<open>invalidESCfg\<close>, and so the whole fetcher, as it was.
\<close>

theorem failed_cycle_keeps_snapshot:
  assumes "refreshCache f w = Some (Some err, f', w')"
  shows "cache f' = cache f \<and> cacheInitialized f' = cacheInitialized f \<and>
         last_time f' = last_time f \<and>
         (\<not> permanent_seen (exchanges_since w w') \<longrightarrow>
            invalidESCfg f' = invalidESCfg f \<and> f' = f)"
  using refreshCache_failure_frame [OF assms] by (simp split: if_splits)

theorem failed_cycle_keeps_snapshot_witness:
  "\<exists>w'. refreshCache stale_fetcher
           (script_world (failing_script (status_response 500) refused) []) =
         Some (Some (StatusError 500), stale_fetcher, w') \<and>
         \<not> permanent_seen
             (exchanges_since (script_world (failing_script (status_response 500) refused) []) w')"
proof -
  let ?w = "script_world (failing_script (status_response 500) refused) []"
  from failing_cycle [of "status_response 500" "StatusError 500" stale_fetcher refused "[]" "[]"]
  obtain f' w' where cycle: "refreshCache stale_fetcher ?w = Some (Some (StatusError 500), f', w')"
    and w': "trace w' = page_trace stale_fetcher [] (two_pages @ [status_response 500]) @
                        [(ClearScrollRequest [''s2''], refused)]"
    by auto
  from w' have "exchanges_since ?w w' =
      page_trace stale_fetcher [] (two_pages @ [status_response 500]) @
      [(ClearScrollRequest [''s2''], refused)]"
    by (simp add: exchanges_since_def)
  then have transient: "\<not> permanent_seen (exchanges_since ?w w')"
    by (simp add: permanent_seen_cycle [OF two_pages_nonempty])
  with failed_cycle_keeps_snapshot [OF cycle] have "f' = stale_fetcher" by simp
  with cycle transient show ?thesis by auto
qed

subsection \<open>C7: the flags are monotone\<close>

text \<open>
  C7. Both flags are monotone over the operations that return a fetcher (\<^verbatim>\<open>Fetch\<close> and
  \<^verbatim>\<open>clearScroll\<close> return none). \<^verbatim>\<open>singlePageRefresh\<close>, a cycle and a whole run keep a flag
  that is set. The invalid flag becomes set only when a page response had status 401 or
  403; \<^verbatim>\<open>singlePageRefresh\<close> never changes the initialized flag, a cycle sets it only
  when it returns no error, having published the records it gathered, and a run only
  when one of its cycles has logged its success.
\<close>

theorem readiness_flags_are_monotone:
  "(singlePageRefresh f scrollID w = Some (r1, f1, w1) \<longrightarrow>
      (invalidESCfg f \<longrightarrow> invalidESCfg f1) \<and> cacheInitialized f1 = cacheInitialized f \<and>
      (invalidESCfg f1 \<and> \<not> invalidESCfg f \<longrightarrow> permanent_seen (exchanges_since w w1)))
   \<and> (refreshCache f w = Some (r2, f2, w2) \<longrightarrow>
      (invalidESCfg f \<longrightarrow> invalidESCfg f2) \<and> (cacheInitialized f \<longrightarrow> cacheInitialized f2) \<and>
      (invalidESCfg f2 \<and> \<not> invalidESCfg f \<longrightarrow> permanent_seen (exchanges_since w w2)) \<and>
      (cacheInitialized f2 \<and> \<not> cacheInitialized f \<longrightarrow>
         r2 = None \<and> cache f2 = gathered (exchanges_since w w2)))
   \<and> (Run f w = Some (x3, f3, w3) \<longrightarrow>
      (invalidESCfg f \<longrightarrow> invalidESCfg f3) \<and> (cacheInitialized f \<longrightarrow> cacheInitialized f3) \<and>
      (invalidESCfg f3 \<and> \<not> invalidESCfg f \<longrightarrow> permanent_seen (exchanges_since w w3)) \<and>
      (cacheInitialized f3 \<and> \<not> cacheInitialized f \<longrightarrow>
         (DebugLevel, RefreshCacheSuccess) \<in> set (drop (length (logs w)) (logs w3))))"
proof (intro conjI impI)
  assume page: "singlePageRefresh f scrollID w = Some (r1, f1, w1)"
  then obtain out rest where p: "pending w = out # rest"
    by (cases "pending w") (simp_all add: singlePageRefresh_Nil)
  from page have f1: "f1 = classify f out"
    and "trace w1 = trace w @ [(page_request f scrollID, out)]"
    by (auto simp: singlePageRefresh_Cons [OF p])
  then have "exchanges_since w w1 = [(page_request f scrollID, out)]"
    by (simp add: exchanges_since_def)
  then have seen: "permanent_seen (exchanges_since w w1) = permanent out"
    by (simp add: permanent_seen_def page_exchanges_def)
  show "invalidESCfg f \<Longrightarrow> invalidESCfg f1" and "cacheInitialized f1 = cacheInitialized f"
    by (simp_all add: f1)
  show "invalidESCfg f1 \<and> \<not> invalidESCfg f \<Longrightarrow> permanent_seen (exchanges_since w w1)"
    unfolding seen by (auto simp: f1)
next
  assume cycle: "refreshCache f w = Some (r2, f2, w2)"
  from refreshCache_summary [OF cycle] obtain new where
    new: "trace w2 = trace w @ new"
      "invalidESCfg f2 \<longleftrightarrow> invalidESCfg f \<or> permanent_seen new"
      "cacheInitialized f2 \<longleftrightarrow> cacheInitialized f \<or> r2 = None"
    by blast
  from new(1) have ex: "exchanges_since w w2 = new" by (rule exchanges_since_append)
  show "invalidESCfg f \<Longrightarrow> invalidESCfg f2" and "cacheInitialized f \<Longrightarrow> cacheInitialized f2"
    using new(2,3) by blast+
  show "invalidESCfg f2 \<and> \<not> invalidESCfg f \<Longrightarrow> permanent_seen (exchanges_since w w2)"
    unfolding ex using new(2) by blast
  assume "cacheInitialized f2 \<and> \<not> cacheInitialized f"
  with new(3) have r2: "r2 = None" by blast
  with cycle have "refreshCache f w = Some (None, f2, w2)" by simp
  from successful_cycle_published [OF this] r2
  show "r2 = None" and "cache f2 = gathered (exchanges_since w w2)" by simp_all
next
  assume run: "Run f w = Some (x3, f3, w3)"
  have "\<exists>new l. trace w3 = trace w @ new \<and> logs w3 = logs w @ l \<and>
      (invalidESCfg f \<longrightarrow> invalidESCfg f3) \<and>
      (cacheInitialized f \<longrightarrow> cacheInitialized f3) \<and>
      (invalidESCfg f3 \<longrightarrow> invalidESCfg f \<or> permanent_seen new) \<and>
      (cacheInitialized f3 \<and> \<not> cacheInitialized f \<longrightarrow>
         (DebugLevel, RefreshCacheSuccess) \<in> set l)"
  proof (cases x3)
    case (Return r3)
    with run have "Run_loop f w = Some (r3, f3, w3)" by (simp add: Run_Return)
    from Run_loop_summary [OF this] show ?thesis
      unfolding run_summary_def by blast
  next
    case Panic
    with run have "Run f w = Some (Panic, f3, w3)" by simp
    from Run_Panic [OF this] obtain w1 where
      w1: "select w = Some (Proceed, w1)" "refresh f w1 = Some (False, f3, w3)" by blast
    from refresh_summary [OF w1(2)] select_SomeD(2,3) [OF w1(1)] show ?thesis
      by (simp only:) blast
  qed
  then obtain new l where sum: "trace w3 = trace w @ new" "logs w3 = logs w @ l"
      "invalidESCfg f \<longrightarrow> invalidESCfg f3"
      "cacheInitialized f \<longrightarrow> cacheInitialized f3"
      "invalidESCfg f3 \<longrightarrow> invalidESCfg f \<or> permanent_seen new"
      "cacheInitialized f3 \<and> \<not> cacheInitialized f \<longrightarrow>
         (DebugLevel, RefreshCacheSuccess) \<in> set l"
    by blast
  have new: "exchanges_since w w3 = new" "drop (length (logs w)) (logs w3) = l"
    using sum(1,2) by (simp_all add: exchanges_since_def)
  from sum(3,4,5,6) show "invalidESCfg f \<Longrightarrow> invalidESCfg f3"
    and "cacheInitialized f \<Longrightarrow> cacheInitialized f3"
    and "invalidESCfg f3 \<and> \<not> invalidESCfg f \<Longrightarrow> permanent_seen (exchanges_since w w3)"
    and "cacheInitialized f3 \<and> \<not> cacheInitialized f \<Longrightarrow>
         (DebugLevel, RefreshCacheSuccess) \<in> set (drop (length (logs w)) (logs w3))"
    unfolding new by blast+
qed

theorem readiness_flags_are_monotone_witness:
  "map_option (\<lambda>(r, f', w'). (invalidESCfg f', cacheInitialized f'))
     (singlePageRefresh (NewElasticsearchFetcher 30) [] (script_world [status_response 401] [])) =
     Some (True, False)
   \<and> (\<exists>f' w'. refreshCache (NewElasticsearchFetcher 30) (script_world successful_script []) =
          Some (None, f', w') \<and> cacheInitialized f' \<and> \<not> invalidESCfg f' \<and>
          cache f' = gathered (exchanges_since (script_world successful_script []) w'))
   \<and> (\<exists>w'. Run (NewElasticsearchFetcher 30) denied_after_success =
          Some (Return None, served_but_invalid, w') \<and>
          permanent_seen (exchanges_since denied_after_success w') \<and>
          (DebugLevel, RefreshCacheSuccess) \<in> set (logs w'))"
proof -
  let ?f0 = "NewElasticsearchFetcher 30"
  let ?w1 = "script_world [status_response 401] []"
  let ?w2 = "script_world successful_script []"
  have f0: "\<not> invalidESCfg ?f0" "\<not> cacheInitialized ?f0"
    by (simp_all add: NewElasticsearchFetcher_def)
  have "pending ?w1 = [status_response 401]" by simp
  from singlePageRefresh_Cons [OF this, of ?f0 "[]"]
  obtain w1' where page: "singlePageRefresh ?f0 [] ?w1 =
      Some (Inl (StatusError 401), ?f0\<lparr>invalidESCfg := True\<rparr>, w1')"
    by (auto simp: classify_def)
  from successful_cycle [of ?f0 "[]" "[]"]
  obtain f2 w2' where cycle: "refreshCache ?f0 ?w2 = Some (None, f2, w2')"
    and f2: "cacheInitialized f2" "\<not> invalidESCfg f2"
    by (auto simp: NewElasticsearchFetcher_def)
  from denied_after_success_run obtain w3 where
    run: "Run ?f0 denied_after_success = Some (Return None, served_but_invalid, w3)"
    by blast
  have logs0: "logs denied_after_success = []"
    by (simp add: denied_after_success_def)
  from readiness_flags_are_monotone
    [of ?f0 "[]" ?w1 "Inl (StatusError 401)" "?f0\<lparr>invalidESCfg := True\<rparr>" w1'] page
  have "map_option (\<lambda>(r, f', w'). (invalidESCfg f', cacheInitialized f'))
     (singlePageRefresh ?f0 [] ?w1) = Some (True, False)"
    by (simp add: NewElasticsearchFetcher_def)
  moreover from readiness_flags_are_monotone [of ?f0 _ ?w2 _ _ _ None f2 w2'] cycle f2 f0
  have "cache f2 = gathered (exchanges_since ?w2 w2')"
    by simp
  moreover from readiness_flags_are_monotone
    [of ?f0 _ denied_after_success _ _ _ _ _ _ "Return None" served_but_invalid w3] run f0
  have "permanent_seen (exchanges_since denied_after_success w3) \<and>
        (DebugLevel, RefreshCacheSuccess) \<in> set (logs w3)"
    by (simp add: logs0 served_but_invalid_def)
  ultimately show ?thesis using cycle f2 run by blast
qed

subsection \<open>C8: both flags set\<close>





subsection \<open>C9: the loop ends at the first empty page\<close>

text \<open>
  C9. When the script holds pages with hits (\<open>goods\<close>) and then a page \<open>t\<close> that decodes to
  no hits, the loop of \<^verbatim>\<open>refreshCache\<close> returns at \<open>t\<close>: its requests are the page
  requests answered by \<open>goods\<close> and \<open>t\<close> and no other, what follows \<open>t\<close> in the script is
  not consumed, and the buffer it returns is the buffer it started with followed by the
  records of \<open>goods\<close>. With one more outcome for the clear-scroll request, the cycle
  publishes that buffer.
\<close>

theorem pagination_stops_at_first_empty_page:
  assumes "pending w = goods @ t # rest" and "\<forall>g\<in>set goods. nonempty_page g"
    and "page_outcome t = Inr p" and "Hits p = []"
  shows "refreshCache_loop f scrollID buffer w =
           Some (Inr (ScrollID p, buffer @ concat (map page_records goods)), f,
                 w\<lparr>pending := rest, trace := trace w @ page_trace f scrollID (goods @ [t])\<rparr>)
         \<and> map snd (page_trace f scrollID (goods @ [t])) = goods @ [t]
         \<and> list_all is_page_request (map fst (page_trace f scrollID (goods @ [t])))
         \<and> (rest = c # rest' \<longrightarrow>
              (\<exists>f' w'. refreshCache f w = Some (None, f', w') \<and>
                 cache f' = concat (map page_records goods) \<and>
                 map snd (page_exchanges (exchanges_since w w')) = goods @ [t] \<and>
                 pending w' = rest'))"
proof (intro conjI impI)
  let ?w1 = "w\<lparr>pending := t # rest, trace := trace w @ page_trace f scrollID goods\<rparr>"
  have "refreshCache_loop f scrollID buffer w =
        refreshCache_loop f (last_scrollID scrollID goods)
          (buffer @ concat (map page_records goods)) ?w1"
    using assms(1,2) by (rule refreshCache_loop_pages)
  also have "\<dots> = Some (Inr (ScrollID p, buffer @ concat (map page_records goods)), f,
      ?w1\<lparr>pending := rest,
          trace := trace ?w1 @ [(page_request f (last_scrollID scrollID goods), t)]\<rparr>)"
    using assms(3,4) by (intro refreshCache_loop_break) auto
  finally show "refreshCache_loop f scrollID buffer w =
           Some (Inr (ScrollID p, buffer @ concat (map page_records goods)), f,
                 w\<lparr>pending := rest, trace := trace w @ page_trace f scrollID (goods @ [t])\<rparr>)"
    by (simp add: page_trace_append)
  show "map snd (page_trace f scrollID (goods @ [t])) = goods @ [t]"
    by simp
  have "page_exchanges (page_trace f scrollID (goods @ [t])) = page_trace f scrollID (goods @ [t])"
    by simp
  then show "list_all is_page_request (map fst (page_trace f scrollID (goods @ [t])))"
    unfolding page_exchanges_def list_all_iff
    by (metis (mono_tags, lifting) filter_id_conv imageE list.set_map)
  assume "rest = c # rest'"
  with assms(1) have p: "pending w = goods @ t # c # rest'" by simp
  show "\<exists>f' w'. refreshCache f w = Some (None, f', w') \<and>
          cache f' = concat (map page_records goods) \<and>
          map snd (page_exchanges (exchanges_since w w')) = goods @ [t] \<and>
          pending w' = rest'"
    unfolding refreshCache_success [OF p assms(2,3,4)]
    by (simp add: exchanges_since_def)
qed

theorem pagination_stops_at_first_empty_page_witness:
  "map_option (\<lambda>(r, f', w'). (r, pending w'))
     (refreshCache_loop (NewElasticsearchFetcher 30) [] []
        (script_world (successful_script @ [empty_page]) [])) =
     Some (Inr (''s3'', concat (map page_records two_pages)), [status_response 200, empty_page])
   \<and> (\<exists>f' w'. refreshCache (NewElasticsearchFetcher 30)
                 (script_world (successful_script @ [empty_page]) []) = Some (None, f', w') \<and>
               map ServiceName (cache f') = [''a'', ''b'', ''c'', ''d''] \<and>
               pending w' = [empty_page])"
  using pagination_stops_at_first_empty_page
    [where w = "script_world (successful_script @ [empty_page]) []" and goods = two_pages
      and t = empty_page and rest = "[status_response 200, empty_page]"
      and p = "\<lparr>ScrollID = ''s3'', Hits = []\<rparr>" and f = "NewElasticsearchFetcher 30"
      and scrollID = "[]" and buffer = "[]" and c = "status_response 200"
      and rest' = "[empty_page]"]
  by (auto simp: successful_script_def two_pages_nonempty empty_page_def two_pages_records)

subsection \<open>C10: an empty first page is a successful refresh\<close>

text \<open>
  C10. When the first page of a cycle decodes to no hits (and the clear-scroll request
  is answered), the cycle succeeds: it publishes the empty cache and sets
  \<^verbatim>\<open>cacheInitialized\<close>. \<^verbatim>\<open>Fetch\<close> then hands the query and the empty list to the Matcher,
  and still does so after a later cycle that fails.
\<close>

theorem empty_first_page_initializes:
  assumes "pending w = t # c # rest" and "page_outcome t = Inr p" and "Hits p = []"
    and "f' = f\<lparr>cache := [], cacheInitialized := True, last_time := now w\<rparr>"
  shows "(\<exists>w'. refreshCache f w = Some (None, f', w')) \<and>
         Fetch matchAgentConfig f' query = Inr (matchAgentConfig query []) \<and>
         (refreshCache f' w2 = Some (Some err, f2, w2') \<longrightarrow>
            Fetch matchAgentConfig f2 query = Inr (matchAgentConfig query []))"
proof (intro conjI impI)
  from assms(1) have p: "pending w = [] @ t # c # rest" by simp
  have "\<forall>g\<in>set ([] :: (error + response) list). nonempty_page g" by simp
  from refreshCache_success [OF p this assms(2,3), of f]
  show "\<exists>w'. refreshCache f w = Some (None, f', w')"
    by (simp add: assms(4))
  show "Fetch matchAgentConfig f' query = Inr (matchAgentConfig query [])"
    by (simp add: Fetch_def assms(4))
  assume "refreshCache f' w2 = Some (Some err, f2, w2')"
  from refreshCache_failure_frame [OF this]
  show "Fetch matchAgentConfig f2 query = Inr (matchAgentConfig query [])"
    by (simp add: Fetch_def assms(4) split: if_splits)
qed

theorem empty_first_page_initializes_witness:
  "(\<exists>w'. refreshCache (NewElasticsearchFetcher 30)
            (script_world [empty_page, status_response 200] []) =
          Some (None,
                (NewElasticsearchFetcher 30)
                  \<lparr>cache := [], cacheInitialized := True, last_time := 1\<rparr>, w'))
   \<and> Fetch names
        ((NewElasticsearchFetcher 30)\<lparr>cache := [], cacheInitialized := True, last_time := 1\<rparr>)
        () = Inr []
   \<and> (\<exists>w'. refreshCache
            ((NewElasticsearchFetcher 30)\<lparr>cache := [], cacheInitialized := True, last_time := 1\<rparr>)
            (script_world (failing_script (status_response 500) refused) []) =
          Some (Some (StatusError 500),
                (NewElasticsearchFetcher 30)
                  \<lparr>cache := [], cacheInitialized := True, last_time := 1\<rparr>, w'))"
proof -
  let ?f' = "(NewElasticsearchFetcher 30)\<lparr>cache := [], cacheInitialized := True, last_time := 1\<rparr>"
  let ?w2 = "script_world (failing_script (status_response 500) refused) []"
  from failing_cycle [of "status_response 500" "StatusError 500" ?f' refused "[]" "[]"]
  obtain w2' where later: "refreshCache ?f' ?w2 = Some (Some (StatusError 500), ?f', w2')"
    by (auto simp: classify_def)
  from empty_first_page_initializes
    [where w = "script_world [empty_page, status_response 200] []" and t = empty_page
      and c = "status_response 200" and rest = "[]" and p = "\<lparr>ScrollID = ''s3'', Hits = []\<rparr>"
      and f = "NewElasticsearchFetcher 30" and f' = ?f' and matchAgentConfig = names
      and query = "()" and ?w2.0 = ?w2 and err = "StatusError 500" and ?f2.0 = ?f'
      and ?w2' = w2']
  show ?thesis
    using later by (auto simp: empty_page_def names_def)
qed

end
